theory Spec2Isabelle
  imports Main
begin

section \<open>The Stockfish engine transport of \<open>src/lib/chess-utils.js\<close>\<close>

text \<open>
  The class \<open>StockfishEngine\<close> turns a line-oriented worker channel into correlated
  commands. Its state is a record; every method takes the state and returns the new one.
  Calls that leave the transport (a callback of the caller, \<open>postMessage\<close> and
  \<open>terminate\<close> on the worker) are appended to the field \<open>effects\<close>, in call order.
  Callbacks are opaque: a callback is an identifier, its invocation is an effect, and it
  does not call back into the transport while a line is handled.

  A JavaScript string is a list of code units; the model covers the code units
  U+0000 to U+00FF, one \<^typ>\<open>char\<close> each.
\<close>

subsection \<open>String primitives\<close>

abbreviation NL :: char where
  "NL \<equiv> CHR 0x0A"

text \<open>\<open>s.startsWith(p)\<close>\<close>

definition startsWith :: "string \<Rightarrow> string \<Rightarrow> bool" where
  "startsWith s p = (take (length p) s = p)"

text \<open>
  The white space and line terminators that \<open>String.prototype.trim\<close> strips, among the
  code units up to U+00FF: TAB, LF, VT, FF, CR, SPACE and NBSP.
\<close>

definition isWhiteSpace :: "char \<Rightarrow> bool" where
  "isWhiteSpace c = (c \<in> set [CHR 0x09, CHR 0x0A, CHR 0x0B, CHR 0x0C, CHR 0x0D, CHR 0x20, CHR 0xA0])"

definition trim :: "string \<Rightarrow> string" where
  "trim s = rev (dropWhile isWhiteSpace (rev (dropWhile isWhiteSpace s)))"

text \<open>\<open>s.split(c)\<close> for a one-character separator: never empty, \<open>''''.split(c) = ['''']\<close>.\<close>

fun split :: "char \<Rightarrow> string \<Rightarrow> string list" where
  "split c [] = [[]]"
| "split c (x # xs) =
     (if x = c then [] # split c xs
      else (case split c xs of
              [] \<Rightarrow> [[x]]
            | y # ys \<Rightarrow> (x # y) # ys))"

text \<open>
  \<open>/Total Evaluation[\s\S]+\n$/.test(s)\<close>. The class \<open>[\s\S]\<close> matches every code unit and
  \<open>$\<close> (no \<open>m\<close> flag) only the end of the input, so a match that starts at the head of
  \<open>s\<close> needs the literal, then at least one code unit, then a line feed as the very last
  code unit. \<open>test\<close> tries every start position in turn.
\<close>

definition evalRegex_matchHere :: "string \<Rightarrow> bool" where
  "evalRegex_matchHere s =
     (startsWith s ''Total Evaluation'' \<and>
      (let rest = drop (length ''Total Evaluation'') s
       in 2 \<le> length rest \<and> last rest = NL))"

fun evalRegex_test :: "string \<Rightarrow> bool" where
  "evalRegex_test [] = evalRegex_matchHere []"
| "evalRegex_test (c # cs) = (evalRegex_matchHere (c # cs) \<or> evalRegex_test cs)"

text \<open>\<open>Array.prototype.findIndex\<close>: the first index whose element passes, else \<open>-1\<close>.\<close>

fun findIndex :: "('a \<Rightarrow> bool) \<Rightarrow> 'a list \<Rightarrow> int" where
  "findIndex P [] = - 1"
| "findIndex P (x # xs) =
     (if P x then 0
      else (let i = findIndex P xs in if i = - 1 then - 1 else i + 1))"

text \<open>\<open>a || b\<close> on numbers: \<open>b\<close> when \<open>a\<close> is \<open>0\<close>, else \<open>a\<close> (so \<open>-1 || 0\<close> is \<open>-1\<close>).\<close>

definition js_or :: "int \<Rightarrow> int \<Rightarrow> int" where
  "js_or a b = (if a = 0 then b else a)"

text \<open>\<open>xs[i]\<close>: \<open>undefined\<close> (here \<open>None\<close>) outside \<open>0 .. length - 1\<close>.\<close>

definition at_index :: "'a list \<Rightarrow> int \<Rightarrow> 'a option" where
  "at_index xs i = (if 0 \<le> i \<and> i < int (length xs) then Some (xs ! nat i) else None)"

text \<open>\<open>xs.splice(i, 1)\<close> for an index in range.\<close>

definition splice1 :: "nat \<Rightarrow> 'a list \<Rightarrow> 'a list" where
  "splice1 i xs = take i xs @ drop (Suc i) xs"

subsection \<open>Data\<close>

type_synonym fn = nat

datatype Worker = Worker string

datatype error = TypeError | Error string

datatype effect =
    StreamCall fn string
  | CommandStreamCall fn string
  | CallbackCall fn string
  | PostMessage string
  | Terminate

text \<open>An entry of \<open>commandQueue\<close>. \<open>send\<close> never sets \<open>discard\<close>, so it reads as false.\<close>

record command =
  cmd :: string
  callback :: "fn option"
  stream :: "fn option"
  message :: string
  discard :: bool

text \<open>The fields of a \<open>StockfishEngine\<close>; \<open>engine_stream\<close> is \<open>this.stream\<close>.\<close>

record engine =
  worker :: "Worker option"
  commandQueue :: "command list"
  loaded :: bool
  ready :: bool
  engine_stream :: "fn option"
  effects :: "effect list"

definition emit :: "effect \<Rightarrow> engine \<Rightarrow> engine" where
  "emit e s = s\<lparr>effects := effects s @ [e]\<rparr>"

subsection \<open>Construction\<close>

text \<open>
  \<open>constructor\<close> with \<open>initWorker\<close>; \<open>workerSupported\<close> is \<open>typeof Worker === 'function'\<close>.
\<close>

definition new_StockfishEngine :: "bool \<Rightarrow> string \<Rightarrow> error + engine" where
  "new_StockfishEngine workerSupported workerPath =
     (if \<not> workerSupported then Inl (Error ''Web Workers not supported in this environment'')
      else Inr \<lparr>worker = Some (Worker workerPath), commandQueue = [], loaded = False,
                ready = False, engine_stream = None, effects = []\<rparr>)"

subsection \<open>Attribution\<close>

definition getFirstWord :: "string \<Rightarrow> string" where
  "getFirstWord line = takeWhile (\<lambda>c. c \<noteq> CHR '' '') line"

definition cmdTypeOf :: "string \<Rightarrow> string" where
  "cmdTypeOf firstWord =
     (if firstWord \<in> set [''uciok'', ''option''] then ''uci''
      else if firstWord = ''readyok'' then ''isready''
      else if firstWord \<in> set [''bestmove'', ''info''] then ''go''
      else ''other'')"

definition matchesType :: "string \<Rightarrow> command \<Rightarrow> bool" where
  "matchesType cmdType item =
     (let cmdFirstWord = getFirstWord (cmd item)
      in cmdFirstWord = cmdType \<or>
         (cmdType = ''other'' \<and> cmdFirstWord \<in> set [''d'', ''eval'']))"

definition determineQueueIndex :: "string \<Rightarrow> engine \<Rightarrow> int" where
  "determineQueueIndex line s =
     (if commandQueue s = [] then 0
      else if cmd (hd (commandQueue s)) = ''bench'' \<or> cmd (hd (commandQueue s)) = ''perft'' then 0
      else js_or (findIndex (matchesType (cmdTypeOf (getFirstWord line))) (commandQueue s)) 0)"

subsection \<open>Completion\<close>

text \<open>
  \<open>isCommandComplete\<close> writes \<open>this.loaded\<close>, \<open>this.ready\<close> and \<open>command.message\<close>: it
  returns the verdict with the updated command and engine.
\<close>

definition isCommandComplete :: "string \<Rightarrow> command \<Rightarrow> engine \<Rightarrow> bool \<times> command \<times> engine" where
  "isCommandComplete line command s =
     (if line = ''uciok'' then (True, command, s\<lparr>loaded := True\<rparr>)
      else if line = ''readyok'' then (True, command, s\<lparr>ready := True\<rparr>)
      else if startsWith line ''bestmove'' \<and> cmd command \<noteq> ''bench''
        then (True, command\<lparr>message := line\<rparr>, s)
      else if cmd command = ''d''
        then (startsWith line ''Legal uci moves'' \<or> startsWith line ''Key is'', command, s)
      else if cmd command = ''eval'' then (evalRegex_test (message command), command, s)
      else (list_ex (startsWith line) [''pawn key'', ''Nodes/second'', ''Unknown command''],
            command, s))"

subsection \<open>Line arrival\<close>

text \<open>
  The body of \<open>handleMessage\<close> below its multi-line branch: one line that holds no line
  feed. The attributed command is an object shared with the queue, so what is written to
  it is written to the queue entry at \<open>queueIndex\<close>.
\<close>

definition handleLine :: "string \<Rightarrow> engine \<Rightarrow> engine" where
  "handleLine line s =
     (let s1 = (case engine_stream s of Some f \<Rightarrow> emit (StreamCall f line) s | None \<Rightarrow> s)
      in if commandQueue s1 = [] \<or> startsWith line ''No such option'' \<or>
            startsWith line ''id '' \<or> startsWith line ''Stockfish''
         then s1
         else
           (let queueIndex = determineQueueIndex line s1
            in case at_index (commandQueue s1) queueIndex of
                 None \<Rightarrow> s1
               | Some command \<Rightarrow>
                   (let s2 = (case stream command of
                                Some f \<Rightarrow> emit (CommandStreamCall f line) s1
                              | None \<Rightarrow> s1);
                        command1 = command\<lparr>message :=
                                     (if message command \<noteq> [] then message command @ [NL] @ line
                                      else line)\<rparr>;
                        (isComplete, command2, s3) = isCommandComplete line command1 s2
                    in if isComplete
                       then (let s4 = s3\<lparr>commandQueue := splice1 (nat queueIndex) (commandQueue s3)\<rparr>
                             in case callback command2 of
                                  Some f \<Rightarrow>
                                    if \<not> discard command2 then emit (CallbackCall f (message command2)) s4
                                    else s4
                                | None \<Rightarrow> s4)
                       else s3\<lparr>commandQueue := (commandQueue s3)[nat queueIndex := command2]\<rparr>)))"

text \<open>
  \<open>handleMessage\<close> on the payload of an event: a payload with a line feed is split and
  the method calls itself on every sub-line that is not blank.
\<close>

function handleMessage :: "string \<Rightarrow> engine \<Rightarrow> engine" where
  "handleMessage line s =
     (if NL \<in> set line
      then fold (\<lambda>subLine s'. if trim subLine \<noteq> [] then handleMessage subLine s' else s')
             (split NL line) s
      else handleLine line s)"
  by pat_completeness auto
termination
proof (relation "measure (\<lambda>(line, s). length line)")
  show "wf (measure (\<lambda>(line :: string, s :: engine). length line))"
    by simp
next
  fix line :: string and s s' :: engine and subLine :: string
  assume nl: "NL \<in> set line" and sub: "subLine \<in> set (split NL line)"
  have pieces: "\<And>x. x \<in> set (split NL l) \<Longrightarrow> length x + count_list l NL \<le> length l" for l
  proof (induction l)
    case Nil
    then show ?case by simp
  next
    case (Cons y ys)
    show ?case
    proof (cases "y = NL")
      case True
      with Cons show ?thesis by (auto simp: le_SucI count_le_length)
    next
      case False
      with Cons show ?thesis by (auto split: list.splits simp: le_SucI count_le_length)
    qed
  qed
  from nl have "count_list line NL \<noteq> 0"
    by (simp only: count_list_0_iff not_not)
  then have "0 < count_list line NL"
    by simp
  with pieces [OF sub] have "length subLine < length line"
    by simp
  then show "((subLine, s'), (line, s)) \<in> measure (\<lambda>(line, s). length line)"
    by simp
qed

subsection \<open>Sending and quitting\<close>

definition immediateCommands :: "string list" where
  "immediateCommands = [''ucinewgame'', ''flip'', ''stop'', ''ponderhit'']"

definition needsQueue :: "string \<Rightarrow> bool" where
  "needsQueue c =
     (c \<notin> set immediateCommands \<and> \<not> startsWith c ''position'' \<and> \<not> startsWith c ''setoption'')"

text \<open>
  \<open>send\<close>: the queue entry is pushed before \<open>this.worker.postMessage\<close> is reached; on a
  \<open>null\<close> worker that member access throws a \<open>TypeError\<close>, and the push stays.
\<close>

definition send :: "string \<Rightarrow> fn option \<Rightarrow> fn option \<Rightarrow> engine \<Rightarrow> (error + unit) \<times> engine" where
  "send command cb st s =
     (let c = trim command;
          s1 = (if needsQueue c
                then s\<lparr>commandQueue := commandQueue s @
                         [\<lparr>cmd = c, callback = cb, stream = st, message = [], discard = False\<rparr>]\<rparr>
                else s)
      in case worker s1 of
           None \<Rightarrow> (Inl TypeError, s1)
         | Some w \<Rightarrow> (Inr (), emit (PostMessage c) s1))"

definition quit :: "engine \<Rightarrow> engine" where
  "quit s =
     (case worker s of
        None \<Rightarrow> s
      | Some w \<Rightarrow> (emit Terminate s)\<lparr>worker := None, ready := False, loaded := False\<rparr>)"

declare handleMessage.simps [simp del]

section \<open>Basic facts\<close>

lemma handleMessage_single: "NL \<notin> set line \<Longrightarrow> handleMessage line s = handleLine line s"
  by (simp add: handleMessage.simps)

lemma fold_if_filter:
  "fold (\<lambda>x a. if P x then f x a else a) xs a = fold f (filter P xs) a"
  by (induction xs arbitrary: a) simp_all

lemma split_no_separator: "x \<in> set (split c s) \<Longrightarrow> c \<notin> set x"
proof (induction s arbitrary: x)
  case Nil
  then show ?case by simp
next
  case (Cons y ys)
  then show ?case
    by (cases "split c ys") (auto split: if_splits)
qed

lemma handleLine_empty_queue:
  "commandQueue s = [] \<Longrightarrow>
   handleLine line s =
     s\<lparr>effects := effects s @ (case engine_stream s of Some f \<Rightarrow> [StreamCall f line] | None \<Rightarrow> [])\<rparr>"
  by (simp add: handleLine_def emit_def split: option.splits)

lemma findIndex_range: "findIndex P xs = - 1 \<or> (0 \<le> findIndex P xs \<and> findIndex P xs < int (length xs))"
  by (induction xs) (auto simp: Let_def)

lemma findIndex_none: "findIndex P xs = - 1 \<longleftrightarrow> (\<forall>x \<in> set xs. \<not> P x)"
proof (induction xs)
  case Nil
  then show ?case by simp
next
  case (Cons x xs)
  have "0 \<le> findIndex P xs \<or> findIndex P xs = - 1"
    using findIndex_range [of P xs] by auto
  with Cons show ?case by (auto simp: Let_def)
qed

lemma findIndex_first:
  "(\<forall>x \<in> set pre. \<not> P x) \<Longrightarrow> P c \<Longrightarrow> findIndex P (pre @ c # post) = int (length pre)"
  by (induction pre) (auto simp: Let_def)

lemma findIndex_found:
  assumes "findIndex P xs \<noteq> - 1"
  shows "nat (findIndex P xs) < length xs \<and> P (xs ! nat (findIndex P xs)) \<and>
         (\<forall>m < nat (findIndex P xs). \<not> P (xs ! m))"
  using assms
proof (induction xs)
  case Nil
  then show ?case by simp
next
  case (Cons x xs)
  show ?case
  proof (cases "P x")
    case True
    then show ?thesis by simp
  next
    case False
    with Cons.prems have ne: "findIndex P xs \<noteq> - 1"
      by (auto simp: Let_def split: if_splits)
    then have nonneg: "0 \<le> findIndex P xs"
      using findIndex_range [of P xs] by auto
    from False ne have eq: "findIndex P (x # xs) = findIndex P xs + 1"
      by (simp add: Let_def)
    from nonneg have n: "nat (findIndex P xs + 1) = Suc (nat (findIndex P xs))"
      by simp
    from Cons.IH [OF ne] False show ?thesis
      unfolding eq n by (auto simp: less_Suc_eq_0_disj)
  qed
qed

lemma isCommandComplete_frame:
  assumes "isCommandComplete line c s = (b, c', s')"
  shows "c' = c\<lparr>message := message c'\<rparr>" and "commandQueue s' = commandQueue s"
    and "effects s' = effects s" and "worker s' = worker s" and "engine_stream s' = engine_stream s"
  using assms by (auto simp: isCommandComplete_def split: if_splits)

lemma determineQueueIndex_cong:
  "commandQueue s = commandQueue s' \<Longrightarrow> determineQueueIndex line s = determineQueueIndex line s'"
  by (simp add: determineQueueIndex_def)

lemma determineQueueIndex_effects [simp]:
  "determineQueueIndex line (s\<lparr>effects := e\<rparr>) = determineQueueIndex line s"
  by (rule determineQueueIndex_cong) simp

lemma determineQueueIndex_emit [simp]:
  "determineQueueIndex line (emit e s) = determineQueueIndex line s"
  by (simp add: emit_def)

lemma determineQueueIndex_range:
  "determineQueueIndex line s = - 1 \<or>
   (0 \<le> determineQueueIndex line s \<and>
    (commandQueue s \<noteq> [] \<longrightarrow> determineQueueIndex line s < int (length (commandQueue s))))"
  using findIndex_range [of "matchesType (cmdTypeOf (getFirstWord line))" "commandQueue s"]
  by (auto simp: determineQueueIndex_def js_or_def)

lemma unmatched_line_not_attributed:
  assumes "commandQueue s = c # cs" and "cmd c \<noteq> ''bench''" and "cmd c \<noteq> ''perft''"
    and "\<forall>x \<in> set (c # cs). \<not> matchesType (cmdTypeOf (getFirstWord line)) x"
  shows "determineQueueIndex line s = - 1"
    and "handleLine line s =
           s\<lparr>effects := effects s @
                (case engine_stream s of Some f \<Rightarrow> [StreamCall f line] | None \<Rightarrow> [])\<rparr>"
proof -
  from assms(4) have "findIndex (matchesType (cmdTypeOf (getFirstWord line))) (c # cs) = - 1"
    by (simp only: findIndex_none)
  with assms(1-3) show idx: "determineQueueIndex line s = - 1"
    by (simp add: determineQueueIndex_def js_or_def)
  then show "handleLine line s =
           s\<lparr>effects := effects s @
                (case engine_stream s of Some f \<Rightarrow> [StreamCall f line] | None \<Rightarrow> [])\<rparr>"
    by (simp add: handleLine_def at_index_def emit_def Let_def split: option.splits)
qed

lemma handleLine_queue_frame:
  "commandQueue (handleLine line s) = commandQueue s \<or>
   (\<exists>k m. int k = determineQueueIndex line s \<and> k < length (commandQueue s) \<and>
      (commandQueue (handleLine line s) =
         (commandQueue s)[k := (commandQueue s ! k)\<lparr>message := m\<rparr>] \<or>
       commandQueue (handleLine line s) =
         take k (commandQueue s) @ drop (Suc k) (commandQueue s)))"
proof -
  define q where "q = commandQueue s"
  define s1 where "s1 = (case engine_stream s of Some f \<Rightarrow> emit (StreamCall f line) s | None \<Rightarrow> s)"
  have q1: "commandQueue s1 = q" and i1: "determineQueueIndex line s1 = determineQueueIndex line s"
    by (auto simp: s1_def q_def emit_def split: option.splits)
  show ?thesis
  proof (cases "at_index q (determineQueueIndex line s)")
    case None
    then have "commandQueue (handleLine line s) = q"
      using q1 i1 by (auto simp: handleLine_def Let_def s1_def [symmetric])
    then show ?thesis by (simp add: q_def)
  next
    case (Some command)
    define k where "k = nat (determineQueueIndex line s)"
    from Some have k: "int k = determineQueueIndex line s" "k < length q" "command = q ! k"
      by (auto simp: at_index_def k_def split: if_splits)
    define s2 where "s2 = (case stream command of Some f \<Rightarrow> emit (CommandStreamCall f line) s1 | None \<Rightarrow> s1)"
    define command1 where "command1 = command\<lparr>message :=
        (if message command \<noteq> [] then message command @ [NL] @ line else line)\<rparr>"
    obtain b command2 s3 where icc: "isCommandComplete line command1 s2 = (b, command2, s3)"
      by (cases "isCommandComplete line command1 s2") auto
    have q2: "commandQueue s2 = q"
      using q1 by (auto simp: s2_def emit_def split: option.splits)
    from isCommandComplete_frame(1,2) [OF icc] q2
    have c2: "command2 = command\<lparr>message := message command2\<rparr>" and q3: "commandQueue s3 = q"
      by (simp_all add: command1_def)
    have "commandQueue (handleLine line s) = q \<or>
          commandQueue (handleLine line s) = q[k := command2] \<or>
          commandQueue (handleLine line s) = splice1 k q"
      using Some q1 i1 icc q3
      by (auto simp: handleLine_def Let_def s1_def [symmetric] s2_def [symmetric]
            command1_def [symmetric] k_def [symmetric] emit_def split: option.splits)
    moreover have "q[k := command2] = q[k := (q ! k)\<lparr>message := message command2\<rparr>]"
      using c2 k(3) by simp
    ultimately show ?thesis
      using k(1,2) unfolding q_def [symmetric]
      by (auto simp: splice1_def)
  qed
qed

lemma startsWith_iff: "startsWith s p \<longleftrightarrow> (\<exists>r. s = p @ r)"
proof
  assume "startsWith s p"
  then have "s = p @ drop (length p) s"
    unfolding startsWith_def by (metis append_take_drop_id)
  then show "\<exists>r. s = p @ r" ..
next
  assume "\<exists>r. s = p @ r"
  then show "startsWith s p" by (auto simp: startsWith_def)
qed

lemma literal_block_newline:
  "(startsWith s p \<and> (let rest = drop (length p) s in 2 \<le> length rest \<and> last rest = NL))
   \<longleftrightarrow> (\<exists>mid. mid \<noteq> [] \<and> s = p @ mid @ [NL])"
proof
  assume l: "startsWith s p \<and> (let rest = drop (length p) s in 2 \<le> length rest \<and> last rest = NL)"
  define rest where "rest = drop (length p) s"
  from l have s: "s = p @ rest" and len: "2 \<le> length rest" and nl: "last rest = NL"
    unfolding rest_def startsWith_def Let_def by (metis append_take_drop_id, simp_all)
  from len have "rest \<noteq> []" by auto
  with nl have "rest = butlast rest @ [NL]"
    by (metis append_butlast_last_id)
  moreover from len have "butlast rest \<noteq> []"
    by (cases rest rule: rev_cases) auto
  ultimately show "\<exists>mid. mid \<noteq> [] \<and> s = p @ mid @ [NL]"
    using s by metis
next
  assume "\<exists>mid. mid \<noteq> [] \<and> s = p @ mid @ [NL]"
  then obtain mid where "mid \<noteq> []" and "s = p @ mid @ [NL]" by blast
  then show "startsWith s p \<and> (let rest = drop (length p) s in 2 \<le> length rest \<and> last rest = NL)"
    by (cases mid) (simp_all add: startsWith_def)
qed

lemma evalRegex_matchHere_iff:
  "evalRegex_matchHere s \<longleftrightarrow> (\<exists>mid. mid \<noteq> [] \<and> s = ''Total Evaluation'' @ mid @ [NL])"
  unfolding evalRegex_matchHere_def by (rule literal_block_newline)

lemma evalRegex_test_iff:
  "evalRegex_test s \<longleftrightarrow> (\<exists>pre mid. mid \<noteq> [] \<and> s = pre @ ''Total Evaluation'' @ mid @ [NL])"
proof (induction s)
  case Nil
  show ?case by (simp add: evalRegex_matchHere_iff)
next
  case (Cons c cs)
  define lit where "lit = ''Total Evaluation''"
  have here: "evalRegex_matchHere t \<longleftrightarrow> (\<exists>mid. mid \<noteq> [] \<and> t = lit @ mid @ [NL])" for t
    unfolding lit_def by (rule evalRegex_matchHere_iff)
  have IH: "evalRegex_test cs \<longleftrightarrow> (\<exists>pre mid. mid \<noteq> [] \<and> cs = pre @ lit @ mid @ [NL])"
    unfolding lit_def by (rule Cons.IH)
  have "(\<exists>pre mid. mid \<noteq> [] \<and> c # cs = pre @ lit @ mid @ [NL]) \<longleftrightarrow>
        (\<exists>mid. mid \<noteq> [] \<and> c # cs = lit @ mid @ [NL]) \<or>
        (\<exists>pre mid. mid \<noteq> [] \<and> cs = pre @ lit @ mid @ [NL])"
  proof
    assume "\<exists>pre mid. mid \<noteq> [] \<and> c # cs = pre @ lit @ mid @ [NL]"
    then obtain pre mid where m: "mid \<noteq> []" and e: "c # cs = pre @ lit @ mid @ [NL]" by blast
    show "(\<exists>mid. mid \<noteq> [] \<and> c # cs = lit @ mid @ [NL]) \<or>
          (\<exists>pre mid. mid \<noteq> [] \<and> cs = pre @ lit @ mid @ [NL])"
    proof (cases pre)
      case Nil
      with m e show ?thesis by auto
    next
      case (Cons p ps)
      with e have "cs = ps @ lit @ mid @ [NL]" by simp
      with m show ?thesis by blast
    qed
  next
    assume "(\<exists>mid. mid \<noteq> [] \<and> c # cs = lit @ mid @ [NL]) \<or>
            (\<exists>pre mid. mid \<noteq> [] \<and> cs = pre @ lit @ mid @ [NL])"
    then show "\<exists>pre mid. mid \<noteq> [] \<and> c # cs = pre @ lit @ mid @ [NL]"
    proof
      assume "\<exists>mid. mid \<noteq> [] \<and> c # cs = lit @ mid @ [NL]"
      then obtain mid where "mid \<noteq> []" "c # cs = [] @ lit @ mid @ [NL]" by auto
      then show ?thesis by blast
    next
      assume "\<exists>pre mid. mid \<noteq> [] \<and> cs = pre @ lit @ mid @ [NL]"
      then obtain pre mid where "mid \<noteq> []" "c # cs = (c # pre) @ lit @ mid @ [NL]" by auto
      then show ?thesis by blast
    qed
  qed
  then show ?case
    unfolding lit_def [symmetric] by (simp only: evalRegex_test.simps here IH)
qed

lemma firstWord_is_prefix: "\<exists>r. line = getFirstWord line @ r"
  unfolding getFirstWord_def by (metis takeWhile_dropWhile_id)

lemma go_line_attribution:
  assumes q: "commandQueue s = pre @ c # post"
    and c: "getFirstWord (cmd c) = ''go''"
    and pre: "\<forall>x \<in> set pre. getFirstWord (cmd x) \<noteq> ''go''"
    and hd: "pre \<noteq> [] \<longrightarrow> cmd (hd pre) \<noteq> ''bench'' \<and> cmd (hd pre) \<noteq> ''perft''"
    and line: "getFirstWord line = ''info'' \<or> getFirstWord line = ''bestmove''"
  shows "determineQueueIndex line s = int (length pre)"
proof -
  from line have ty: "cmdTypeOf (getFirstWord line) = ''go''"
    by (auto simp: cmdTypeOf_def)
  from c have cc: "cmd c \<noteq> ''bench'' \<and> cmd c \<noteq> ''perft''"
    by (auto simp: getFirstWord_def)
  have head: "cmd (hd (commandQueue s)) \<noteq> ''bench'' \<and> cmd (hd (commandQueue s)) \<noteq> ''perft''"
    using q hd cc by (cases pre) auto
  have "\<forall>x \<in> set pre. \<not> matchesType ''go'' x"
    using pre by (simp add: matchesType_def)
  moreover have "matchesType ''go'' c"
    using c by (simp add: matchesType_def)
  ultimately have "findIndex (matchesType ''go'') (pre @ c # post) = int (length pre)"
    by (rule findIndex_first)
  with head q ty show ?thesis
    by (simp add: determineQueueIndex_def js_or_def)
qed

lemma info_line_step:
  assumes q: "commandQueue s = pre @ c # post"
    and c: "getFirstWord (cmd c) = ''go''"
    and pre: "\<forall>x \<in> set pre. getFirstWord (cmd x) \<noteq> ''go''"
    and hd: "pre \<noteq> [] \<longrightarrow> cmd (hd pre) \<noteq> ''bench'' \<and> cmd (hd pre) \<noteq> ''perft''"
    and line: "getFirstWord line = ''info''"
  shows "handleLine line s =
           s\<lparr>commandQueue :=
                pre @ c\<lparr>message := (if message c \<noteq> [] then message c @ [NL] @ line else line)\<rparr> # post,
             effects := effects s @
                (case engine_stream s of Some f \<Rightarrow> [StreamCall f line] | None \<Rightarrow> []) @
                (case stream c of Some f \<Rightarrow> [CommandStreamCall f line] | None \<Rightarrow> [])\<rparr>"
proof -
  have idx: "determineQueueIndex line s = int (length pre)"
    using q c pre hd line by (intro go_line_attribution) auto
  obtain r where r: "line = ''info'' @ r"
    using firstWord_is_prefix [of line] line by auto
  have cc: "cmd c \<noteq> ''d''" "cmd c \<noteq> ''eval''"
    using c by (auto simp: getFirstWord_def)
  have icc: "isCommandComplete line (c\<lparr>message := m\<rparr>) t = (False, c\<lparr>message := m\<rparr>, t)" for m t
    using cc by (simp add: isCommandComplete_def r startsWith_def)
  have nf: "\<not> startsWith line ''No such option''" "\<not> startsWith line ''id ''"
    "\<not> startsWith line ''Stockfish''"
    by (simp_all add: r startsWith_def)
  show ?thesis
    using q idx nf
    by (auto simp: handleLine_def Let_def at_index_def icc emit_def split: option.splits)
qed

lemma bestmove_line_step:
  assumes q: "commandQueue s = pre @ c # post"
    and c: "getFirstWord (cmd c) = ''go''"
    and pre: "\<forall>x \<in> set pre. getFirstWord (cmd x) \<noteq> ''go''"
    and hd: "pre \<noteq> [] \<longrightarrow> cmd (hd pre) \<noteq> ''bench'' \<and> cmd (hd pre) \<noteq> ''perft''"
    and line: "getFirstWord line = ''bestmove''"
  shows "handleLine line s =
           s\<lparr>commandQueue := pre @ post,
             effects := effects s @
                (case engine_stream s of Some f \<Rightarrow> [StreamCall f line] | None \<Rightarrow> []) @
                (case stream c of Some f \<Rightarrow> [CommandStreamCall f line] | None \<Rightarrow> []) @
                (case callback c of
                   Some f \<Rightarrow> if discard c then [] else [CallbackCall f line]
                 | None \<Rightarrow> [])\<rparr>"
proof -
  have idx: "determineQueueIndex line s = int (length pre)"
    using q c pre hd line by (intro go_line_attribution) auto
  obtain r where r: "line = ''bestmove'' @ r"
    using firstWord_is_prefix [of line] line by auto
  have cc: "cmd c \<noteq> ''bench''"
    using c by (auto simp: getFirstWord_def)
  have icc: "isCommandComplete line (c\<lparr>message := m\<rparr>) t = (True, c\<lparr>message := line\<rparr>, t)" for m t
    using cc by (simp add: isCommandComplete_def r startsWith_def)
  have nf: "\<not> startsWith line ''No such option''" "\<not> startsWith line ''id ''"
    "\<not> startsWith line ''Stockfish''"
    by (simp_all add: r startsWith_def)
  show ?thesis
    using q idx nf
    by (auto simp: handleLine_def Let_def at_index_def icc emit_def splice1_def
          split: option.splits)
qed

lemma info_lines_fold:
  assumes "commandQueue s = pre @ c # post"
    and "getFirstWord (cmd c) = ''go''"
    and "\<forall>x \<in> set pre. getFirstWord (cmd x) \<noteq> ''go''"
    and "pre \<noteq> [] \<longrightarrow> cmd (hd pre) \<noteq> ''bench'' \<and> cmd (hd pre) \<noteq> ''perft''"
    and "\<forall>l \<in> set infos. getFirstWord l = ''info'' \<and> NL \<notin> set l"
  shows "\<exists>m. fold handleMessage infos s =
           s\<lparr>commandQueue := pre @ c\<lparr>message := m\<rparr> # post,
             effects := effects s @
               concat (map (\<lambda>l.
                 (case engine_stream s of Some f \<Rightarrow> [StreamCall f l] | None \<Rightarrow> []) @
                 (case stream c of Some f \<Rightarrow> [CommandStreamCall f l] | None \<Rightarrow> [])) infos)\<rparr>"
  using assms
proof (induction infos arbitrary: s c)
  case Nil
  have "s = s\<lparr>commandQueue := pre @ c\<lparr>message := message c\<rparr> # post, effects := effects s @ []\<rparr>"
    using Nil.prems(1) by simp
  then show ?case by (auto intro: exI [of _ "message c"])
next
  case (Cons l ls)
  define c' where "c' = c\<lparr>message := (if message c \<noteq> [] then message c @ [NL] @ l else l)\<rparr>"
  define s' where "s' = handleLine l s"
  from Cons.prems have l: "getFirstWord l = ''info''" "NL \<notin> set l" by auto
  have step: "s' = s\<lparr>commandQueue := pre @ c' # post,
      effects := effects s @
        (case engine_stream s of Some f \<Rightarrow> [StreamCall f l] | None \<Rightarrow> []) @
        (case stream c of Some f \<Rightarrow> [CommandStreamCall f l] | None \<Rightarrow> [])\<rparr>"
    unfolding s'_def c'_def
    using Cons.prems(1-4) l(1) by (rule info_line_step)
  have "\<exists>m. fold handleMessage ls s' =
           s'\<lparr>commandQueue := pre @ c'\<lparr>message := m\<rparr> # post,
             effects := effects s' @
               concat (map (\<lambda>l.
                 (case engine_stream s' of Some f \<Rightarrow> [StreamCall f l] | None \<Rightarrow> []) @
                 (case stream c' of Some f \<Rightarrow> [CommandStreamCall f l] | None \<Rightarrow> [])) ls)\<rparr>"
  proof (rule Cons.IH)
    show "commandQueue s' = pre @ c' # post" by (simp add: step)
    show "getFirstWord (cmd c') = ''go''" using Cons.prems(2) by (simp add: c'_def)
    show "\<forall>x \<in> set pre. getFirstWord (cmd x) \<noteq> ''go''" by (rule Cons.prems(3))
    show "pre \<noteq> [] \<longrightarrow> cmd (hd pre) \<noteq> ''bench'' \<and> cmd (hd pre) \<noteq> ''perft''" by (rule Cons.prems(4))
    show "\<forall>l \<in> set ls. getFirstWord l = ''info'' \<and> NL \<notin> set l" using Cons.prems(5) by simp
  qed
  then obtain m where m: "fold handleMessage ls s' =
           s'\<lparr>commandQueue := pre @ c'\<lparr>message := m\<rparr> # post,
             effects := effects s' @
               concat (map (\<lambda>l.
                 (case engine_stream s' of Some f \<Rightarrow> [StreamCall f l] | None \<Rightarrow> []) @
                 (case stream c' of Some f \<Rightarrow> [CommandStreamCall f l] | None \<Rightarrow> [])) ls)\<rparr>"
    by blast
  have "fold handleMessage (l # ls) s = fold handleMessage ls s'"
    using l(2) by (simp add: s'_def handleMessage_single)
  also have "\<dots> = s\<lparr>commandQueue := pre @ c\<lparr>message := m\<rparr> # post,
             effects := effects s @
               concat (map (\<lambda>l.
                 (case engine_stream s of Some f \<Rightarrow> [StreamCall f l] | None \<Rightarrow> []) @
                 (case stream c of Some f \<Rightarrow> [CommandStreamCall f l] | None \<Rightarrow> [])) (l # ls))\<rparr>"
    unfolding m by (simp add: step c'_def)
  finally show ?case by blast
qed

lemma cmdTypeOf_family: "cmdTypeOf w \<in> set [''uci'', ''isready'', ''go'', ''other'']"
  by (simp add: cmdTypeOf_def)

lemma matchesType_one_family:
  assumes "T \<in> set [''uci'', ''isready'', ''go'', ''other'']"
    and "T' \<in> set [''uci'', ''isready'', ''go'', ''other'']"
    and "matchesType T c" and "matchesType T' c"
  shows "T' = T"
  using assms by (auto simp: matchesType_def)

lemma determineQueueIndex_cases:
  assumes "commandQueue s \<noteq> []"
  shows "determineQueueIndex line s = 0 \<and>
           (cmd (hd (commandQueue s)) = ''bench'' \<or> cmd (hd (commandQueue s)) = ''perft'') \<or>
         determineQueueIndex line s =
           findIndex (matchesType (cmdTypeOf (getFirstWord line))) (commandQueue s) \<and>
           cmd (hd (commandQueue s)) \<noteq> ''bench'' \<and> cmd (hd (commandQueue s)) \<noteq> ''perft''"
  using assms by (auto simp: determineQueueIndex_def js_or_def)

lemma not_attributed_behind_same_family:
  assumes "i < j" and "j < length (commandQueue s)"
    and "T \<in> set [''uci'', ''isready'', ''go'', ''other'']"
    and "matchesType T (commandQueue s ! i)" and "matchesType T (commandQueue s ! j)"
  shows "determineQueueIndex line s \<noteq> int j"
proof
  assume eq: "determineQueueIndex line s = int j"
  define q where "q = commandQueue s"
  define P where "P = matchesType (cmdTypeOf (getFirstWord line))"
  have ne: "commandQueue s \<noteq> []" using assms(2) by auto
  from determineQueueIndex_cases [OF ne, of line] eq assms(1)
  have fj: "findIndex P q = int j"
    by (auto simp: P_def q_def)
  then have f: "findIndex P q \<noteq> - 1" by simp
  from findIndex_found [OF f] fj
  have Pj: "P (q ! j)" and least: "\<forall>m < j. \<not> P (q ! m)" by simp_all
  from Pj assms(3,5) have "cmdTypeOf (getFirstWord line) = T"
    unfolding P_def q_def by (intro matchesType_one_family [OF _ cmdTypeOf_family]) 
  with assms(4) have "P (q ! i)" by (simp add: P_def q_def)
  with least assms(1) show False by blast
qed

lemma earliest_of_family_attributed:
  assumes "i < j" and "j < length (commandQueue s)"
    and "matchesType T (commandQueue s ! i)" and "matchesType T (commandQueue s ! j)"
    and "cmd (hd (commandQueue s)) \<noteq> ''bench''" and "cmd (hd (commandQueue s)) \<noteq> ''perft''"
    and "cmdTypeOf (getFirstWord line) = T"
  shows "\<exists>k \<le> i. determineQueueIndex line s = int k \<and> matchesType T (commandQueue s ! k) \<and>
           (\<forall>m < k. \<not> matchesType T (commandQueue s ! m))"
proof -
  define q where "q = commandQueue s"
  have ne: "commandQueue s \<noteq> []" using assms(2) by auto
  from determineQueueIndex_cases [OF ne, of line] assms(5-7)
  have d: "determineQueueIndex line s = findIndex (matchesType T) q"
    by (auto simp: q_def)
  from assms(1,2,3) have "\<exists>x \<in> set q. matchesType T x"
    unfolding q_def by (metis nth_mem less_trans)
  then have f: "findIndex (matchesType T) q \<noteq> - 1"
    by (simp add: findIndex_none)
  from f findIndex_range [of "matchesType T" q] have nonneg: "0 \<le> findIndex (matchesType T) q"
    by auto
  from findIndex_found [OF f]
  have k: "matchesType T (q ! nat (findIndex (matchesType T) q))"
    "\<forall>m < nat (findIndex (matchesType T) q). \<not> matchesType T (q ! m)" by simp_all
  from k(2) assms(3) have "\<not> i < nat (findIndex (matchesType T) q)"
    unfolding q_def by blast
  with k nonneg d show ?thesis
    unfolding q_def [symmetric]
    by (intro exI [of _ "nat (findIndex (matchesType T) q)"]) simp
qed

lemma handleLine_step:
  "\<exists>ev. effects (handleLine line s) =
           effects s @ (case engine_stream s of Some f \<Rightarrow> [StreamCall f line] | None \<Rightarrow> []) @ ev \<and>
        (ev = [] \<and> commandQueue (handleLine line s) = commandQueue s \<or>
         (\<exists>k m. int k = determineQueueIndex line s \<and> k < length (commandQueue s) \<and>
            (ev = (case stream (commandQueue s ! k) of
                     Some f \<Rightarrow> [CommandStreamCall f line] | None \<Rightarrow> []) \<and>
             commandQueue (handleLine line s) =
               (commandQueue s)[k := (commandQueue s ! k)\<lparr>message := m\<rparr>] \<or>
             ev = (case stream (commandQueue s ! k) of
                     Some f \<Rightarrow> [CommandStreamCall f line] | None \<Rightarrow> []) @
                  (case callback (commandQueue s ! k) of
                     Some f \<Rightarrow> if discard (commandQueue s ! k) then [] else [CallbackCall f m]
                   | None \<Rightarrow> []) \<and>
             commandQueue (handleLine line s) =
               take k (commandQueue s) @ drop (Suc k) (commandQueue s))))"
proof -
  define q where "q = commandQueue s"
  define gs where "gs = (case engine_stream s of Some f \<Rightarrow> [StreamCall f line] | None \<Rightarrow> [])"
  define s1 where "s1 = (case engine_stream s of Some f \<Rightarrow> emit (StreamCall f line) s | None \<Rightarrow> s)"
  have q1: "commandQueue s1 = q" and i1: "determineQueueIndex line s1 = determineQueueIndex line s"
    and e1: "effects s1 = effects s @ gs"
    by (auto simp: s1_def q_def gs_def emit_def split: option.splits)
  show ?thesis
  proof (cases "commandQueue s1 = [] \<or> startsWith line ''No such option'' \<or>
            startsWith line ''id '' \<or> startsWith line ''Stockfish'' \<or>
            at_index q (determineQueueIndex line s) = None")
    case True
    then have "handleLine line s = s1"
      using q1 i1 by (auto simp: handleLine_def Let_def s1_def [symmetric])
    with q1 e1 show ?thesis
      unfolding q_def [symmetric] gs_def [symmetric] by simp
  next
    case False
    then obtain command where Some: "at_index q (determineQueueIndex line s) = Some command"
      by auto
    define k where "k = nat (determineQueueIndex line s)"
    from Some have k: "int k = determineQueueIndex line s" "k < length q" "command = q ! k"
      by (auto simp: at_index_def k_def split: if_splits)
    define cs where "cs = (case stream command of Some f \<Rightarrow> [CommandStreamCall f line] | None \<Rightarrow> [])"
    define s2 where "s2 = (case stream command of Some f \<Rightarrow> emit (CommandStreamCall f line) s1 | None \<Rightarrow> s1)"
    define command1 where "command1 = command\<lparr>message :=
        (if message command \<noteq> [] then message command @ [NL] @ line else line)\<rparr>"
    obtain b command2 s3 where icc: "isCommandComplete line command1 s2 = (b, command2, s3)"
      by (cases "isCommandComplete line command1 s2") auto
    have q2: "commandQueue s2 = q" and e2: "effects s2 = effects s @ gs @ cs"
      using q1 e1 by (auto simp: s2_def cs_def emit_def split: option.splits)
    from isCommandComplete_frame(1,2,3) [OF icc] q2 e2
    have c2: "command2 = command\<lparr>message := message command2\<rparr>" and q3: "commandQueue s3 = q"
      and e3: "effects s3 = effects s @ gs @ cs"
      by (simp_all add: command1_def)
    from c2 have fields: "callback command2 = callback command" "discard command2 = discard command"
      by (metis command.select_convs(2) command.surjective command.update_convs(4),
          metis command.select_convs(5) command.surjective command.update_convs(4))
    have hl: "handleLine line s =
        (if b
         then (let s4 = s3\<lparr>commandQueue := splice1 k q\<rparr>
               in case callback command2 of
                    Some f \<Rightarrow> if \<not> discard command2 then emit (CallbackCall f (message command2)) s4 else s4
                  | None \<Rightarrow> s4)
         else s3\<lparr>commandQueue := q[k := command2]\<rparr>)"
      using False Some q1 i1 icc q3
      by (simp add: handleLine_def Let_def s1_def [symmetric] s2_def [symmetric]
            command1_def [symmetric] k_def [symmetric])
    show ?thesis
    proof (cases b)
      case False
      with hl have "effects (handleLine line s) = effects s @ gs @ cs"
        and "commandQueue (handleLine line s) = q[k := (q ! k)\<lparr>message := message command2\<rparr>]"
        using e3 c2 k(3) by simp_all
      with k(1,2) show ?thesis
        unfolding q_def [symmetric] gs_def [symmetric] cs_def k(3)
        by blast
    next
      case True
      with hl have "effects (handleLine line s) = effects s @ gs @ cs @
             (case callback command of
                Some f \<Rightarrow> if discard command then [] else [CallbackCall f (message command2)]
              | None \<Rightarrow> [])"
        and "commandQueue (handleLine line s) = take k q @ drop (Suc k) q"
        using e3 fields by (auto simp: Let_def emit_def splice1_def split: option.splits)
      with k(1,2) show ?thesis
        unfolding q_def [symmetric] gs_def [symmetric] cs_def k(3)
        by blast
    qed
  qed
qed

lemma nth_without:
  "k < length q \<Longrightarrow> n < length q - 1 \<Longrightarrow>
   (take k q @ drop (Suc k) q) ! n = q ! (if n < k then n else Suc n)"
  by (auto simp: nth_append min_def)

lemma matchesType_cmd: "cmd c = cmd c' \<Longrightarrow> matchesType T c = matchesType T c'"
  by (simp add: matchesType_def)

lemma callback_order_step:
  assumes T: "T \<in> set [''uci'', ''isready'', ''go'', ''other'']"
    and inv: "(\<exists>i j A. i < j \<and> j < length (commandQueue t) \<and>
                matchesType T (commandQueue t ! i) \<and> matchesType T (commandQueue t ! j) \<and>
                callback (commandQueue t ! i) = Some f \<and> \<not> discard (commandQueue t ! i) \<and>
                (\<forall>k < length (commandQueue t). k \<noteq> j \<longrightarrow> callback (commandQueue t ! k) \<noteq> Some g) \<and>
                effects t = e0 @ A \<and> (\<forall>m. CallbackCall g m \<notin> set A)) \<or>
              (\<exists>A m' B. effects t = e0 @ A @ CallbackCall f m' # B \<and>
                (\<forall>m. CallbackCall g m \<notin> set A))" (is "?Inv t")
  shows "?Inv (handleLine line t)"
proof -
  define q where "q = commandQueue t"
  define gs where "gs = (case engine_stream t of Some h \<Rightarrow> [StreamCall h line] | None \<Rightarrow> [])"
  have gs: "CallbackCall g m \<notin> set gs" for m
    by (simp add: gs_def split: option.splits)
  from handleLine_step [of line t] obtain ev where
    eff: "effects (handleLine line t) = effects t @ gs @ ev"
    and ev: "ev = [] \<and> commandQueue (handleLine line t) = q \<or>
         (\<exists>k m. int k = determineQueueIndex line t \<and> k < length q \<and>
            (ev = (case stream (q ! k) of Some h \<Rightarrow> [CommandStreamCall h line] | None \<Rightarrow> []) \<and>
             commandQueue (handleLine line t) = q[k := (q ! k)\<lparr>message := m\<rparr>] \<or>
             ev = (case stream (q ! k) of Some h \<Rightarrow> [CommandStreamCall h line] | None \<Rightarrow> []) @
                  (case callback (q ! k) of
                     Some h \<Rightarrow> if discard (q ! k) then [] else [CallbackCall h m]
                   | None \<Rightarrow> []) \<and>
             commandQueue (handleLine line t) = take k q @ drop (Suc k) q))"
    unfolding q_def gs_def by blast
  from inv show ?thesis
  proof
    assume "\<exists>A m' B. effects t = e0 @ A @ CallbackCall f m' # B \<and> (\<forall>m. CallbackCall g m \<notin> set A)"
    then obtain A m' B where "effects t = e0 @ A @ CallbackCall f m' # B"
      and "\<forall>m. CallbackCall g m \<notin> set A" by blast
    with eff have "effects (handleLine line t) = e0 @ A @ CallbackCall f m' # (B @ gs @ ev) \<and>
        (\<forall>m. CallbackCall g m \<notin> set A)" by simp
    then show ?thesis by blast
  next
    assume "\<exists>i j A. i < j \<and> j < length (commandQueue t) \<and>
                matchesType T (commandQueue t ! i) \<and> matchesType T (commandQueue t ! j) \<and>
                callback (commandQueue t ! i) = Some f \<and> \<not> discard (commandQueue t ! i) \<and>
                (\<forall>k < length (commandQueue t). k \<noteq> j \<longrightarrow> callback (commandQueue t ! k) \<noteq> Some g) \<and>
                effects t = e0 @ A \<and> (\<forall>m. CallbackCall g m \<notin> set A)"
    then obtain i j A where ij: "i < j" "j < length q"
      and Ti: "matchesType T (q ! i)" and Tj: "matchesType T (q ! j)"
      and fi: "callback (q ! i) = Some f" "\<not> discard (q ! i)"
      and uniq: "\<forall>k < length q. k \<noteq> j \<longrightarrow> callback (q ! k) \<noteq> Some g"
      and A: "effects t = e0 @ A" "\<forall>m. CallbackCall g m \<notin> set A"
      unfolding q_def by blast
    have notj: "determineQueueIndex line t \<noteq> int j"
      using ij T Ti Tj unfolding q_def by (rule not_attributed_behind_same_family)
    from ev show ?thesis
    proof (elim disjE exE conjE)
      assume "ev = []" and same: "commandQueue (handleLine line t) = q"
      with eff A gs have "effects (handleLine line t) = e0 @ (A @ gs) \<and>
          (\<forall>m. CallbackCall g m \<notin> set (A @ gs))" by simp
      with ij Ti Tj fi uniq same show ?thesis
        by blast
    next
      fix k m
      assume k: "int k = determineQueueIndex line t" "k < length q"
        and e: "ev = (case stream (q ! k) of Some h \<Rightarrow> [CommandStreamCall h line] | None \<Rightarrow> [])"
        and upd: "commandQueue (handleLine line t) = q[k := (q ! k)\<lparr>message := m\<rparr>]"
      define q' where "q' = q[k := (q ! k)\<lparr>message := m\<rparr>]"
      have fields: "cmd (q' ! n) = cmd (q ! n) \<and> callback (q' ! n) = callback (q ! n) \<and>
          discard (q' ! n) = discard (q ! n)" if "n < length q" for n
        using that by (cases "n = k") (simp_all add: q'_def)
      have len: "length q' = length q" by (simp add: q'_def)
      from e have "\<forall>m. CallbackCall g m \<notin> set ev" by (simp split: option.splits)
      with eff A gs have effs: "effects (handleLine line t) = e0 @ (A @ gs @ ev) \<and>
          (\<forall>m. CallbackCall g m \<notin> set (A @ gs @ ev))" by simp
      have "i < j \<and> j < length q' \<and> matchesType T (q' ! i) \<and> matchesType T (q' ! j) \<and>
          callback (q' ! i) = Some f \<and> \<not> discard (q' ! i) \<and>
          (\<forall>n < length q'. n \<noteq> j \<longrightarrow> callback (q' ! n) \<noteq> Some g)"
        using ij Ti Tj fi uniq fields len
        by (metis less_trans matchesType_cmd)
      with effs upd show ?thesis
        unfolding q'_def [symmetric] by blast
    next
      fix k m
      assume k: "int k = determineQueueIndex line t" "k < length q"
        and e: "ev = (case stream (q ! k) of Some h \<Rightarrow> [CommandStreamCall h line] | None \<Rightarrow> []) @
                  (case callback (q ! k) of
                     Some h \<Rightarrow> if discard (q ! k) then [] else [CallbackCall h m]
                   | None \<Rightarrow> [])"
        and del: "commandQueue (handleLine line t) = take k q @ drop (Suc k) q"
      define cs where "cs = (case stream (q ! k) of Some h \<Rightarrow> [CommandStreamCall h line] | None \<Rightarrow> [])"
      have cs: "CallbackCall g m \<notin> set cs" for m
        by (simp add: cs_def split: option.splits)
      from k(1) notj have kj: "k \<noteq> j" by auto
      with uniq k(2) have ng: "callback (q ! k) \<noteq> Some g" by simp
      show ?thesis
      proof (cases "k = i")
        case True
        with e fi have "ev = cs @ [CallbackCall f m]" by (simp add: cs_def)
        with eff A gs cs have "effects (handleLine line t) = e0 @ (A @ gs @ cs) @ CallbackCall f m # [] \<and>
            (\<forall>m. CallbackCall g m \<notin> set (A @ gs @ cs))" by simp
        then show ?thesis by blast
      next
        case False
        define q' where "q' = take k q @ drop (Suc k) q"
        define i' where "i' = (if i < k then i else i - 1)"
        define j' where "j' = (if j < k then j else j - 1)"
        have len: "length q' = length q - 1"
          using k(2) by (simp add: q'_def)
        have nth: "q' ! n = q ! (if n < k then n else Suc n)" if "n < length q - 1" for n
          unfolding q'_def using k(2) that by (rule nth_without)
        have i'j': "i' < j'" "j' < length q'"
          using ij False kj k(2) by (auto simp: i'_def j'_def len)
        have qi: "q' ! i' = q ! i"
          using ij False kj k(2) by (subst nth) (auto simp: i'_def)
        have qj: "q' ! j' = q ! j"
          using ij False kj k(2) by (subst nth) (auto simp: j'_def)
        have un: "callback (q' ! n) \<noteq> Some g" if "n < length q'" "n \<noteq> j'" for n
        proof -
          from that(1) have n: "n < length q - 1" by (simp add: len)
          have "(if n < k then n else Suc n) \<noteq> j"
            using that(2) kj by (auto simp: j'_def)
          moreover have "(if n < k then n else Suc n) < length q"
            using n by auto
          ultimately show ?thesis
            using uniq by (simp only: nth [OF n]) blast
        qed
        from e ng have "\<forall>m. CallbackCall g m \<notin> set ev"
          by (auto split: option.splits)
        with eff A gs have effs: "effects (handleLine line t) = e0 @ (A @ gs @ ev) \<and>
            (\<forall>m. CallbackCall g m \<notin> set (A @ gs @ ev))" by simp
        have "i' < j' \<and> j' < length q' \<and> matchesType T (q' ! i') \<and> matchesType T (q' ! j') \<and>
            callback (q' ! i') = Some f \<and> \<not> discard (q' ! i') \<and>
            (\<forall>n < length q'. n \<noteq> j' \<longrightarrow> callback (q' ! n) \<noteq> Some g)"
          using i'j' qi qj Ti Tj fi un by simp
        with effs del show ?thesis
          unfolding q'_def [symmetric] by blast
      qed
    qed
  qed
qed

lemma handleMessage_lines: "\<exists>ls. \<forall>s. handleMessage p s = fold handleLine ls s"
proof (cases "NL \<in> set p")
  case False
  then have "\<forall>s. handleMessage p s = fold handleLine [p] s"
    by (simp add: handleMessage_single)
  then show ?thesis ..
next
  case True
  define ls where "ls = filter (\<lambda>subLine. trim subLine \<noteq> []) (split NL p)"
  have "handleMessage p s = fold handleLine ls s" for s
  proof -
    have "handleMessage p s =
        fold (\<lambda>subLine s'. if trim subLine \<noteq> [] then handleMessage subLine s' else s') (split NL p) s"
      using True by (simp add: handleMessage.simps)
    also have "\<dots> = fold handleMessage ls s"
      unfolding ls_def by (rule fold_if_filter)
    also have "\<dots> = fold handleLine ls s"
    proof (rule fold_cong [OF refl refl])
      fix l assume "l \<in> set ls"
      then have "l \<in> set (split NL p)" by (simp add: ls_def)
      then have "NL \<notin> set l" by (rule split_no_separator)
      then show "handleMessage l = handleLine l"
        by (auto simp: handleMessage_single)
    qed
    finally show ?thesis .
  qed
  then show ?thesis by blast
qed

lemma fold_handleMessage_lines: "\<exists>ls. \<forall>s. fold handleMessage ps s = fold handleLine ls s"
proof (induction ps)
  case Nil
  have "\<forall>s. fold handleMessage [] s = fold handleLine [] s" by simp
  then show ?case ..
next
  case (Cons p ps)
  from handleMessage_lines [of p] obtain l1 where l1: "\<And>s. handleMessage p s = fold handleLine l1 s"
    by blast
  from Cons.IH obtain l2 where l2: "\<And>s. fold handleMessage ps s = fold handleLine l2 s"
    by blast
  have "\<forall>s. fold handleMessage (p # ps) s = fold handleLine (l1 @ l2) s"
    by (simp add: l1 l2)
  then show ?case ..
qed

lemma callback_order_lines:
  assumes T: "T \<in> set [''uci'', ''isready'', ''go'', ''other'']"
    and inv: "(\<exists>i j A. i < j \<and> j < length (commandQueue t) \<and>
                matchesType T (commandQueue t ! i) \<and> matchesType T (commandQueue t ! j) \<and>
                callback (commandQueue t ! i) = Some f \<and> \<not> discard (commandQueue t ! i) \<and>
                (\<forall>k < length (commandQueue t). k \<noteq> j \<longrightarrow> callback (commandQueue t ! k) \<noteq> Some g) \<and>
                effects t = e0 @ A \<and> (\<forall>m. CallbackCall g m \<notin> set A)) \<or>
              (\<exists>A m' B. effects t = e0 @ A @ CallbackCall f m' # B \<and>
                (\<forall>m. CallbackCall g m \<notin> set A))" (is "?Inv t")
  shows "?Inv (fold handleLine ls t)"
  using inv
proof (induction ls arbitrary: t)
  case Nil
  then show ?case by simp
next
  case (Cons l ls)
  from T Cons.prems have "?Inv (handleLine l t)" by (rule callback_order_step)
  then have "?Inv (fold handleLine ls (handleLine l t))" by (rule Cons.IH)
  then show ?case by simp
qed

lemma event_before:
  assumes "A' @ b # B' = A0 @ a # B0" and "b \<notin> set A0" and "a \<noteq> b"
  shows "a \<in> set A'"
  using assms
proof (induction A0 arbitrary: A')
  case Nil
  then show ?case by (cases A') auto
next
  case (Cons x xs)
  then show ?case by (cases A') auto
qed

lemma second_callback_after_first:
  assumes "i < j" and "j < length (commandQueue s)"
    and "T \<in> set [''uci'', ''isready'', ''go'', ''other'']"
    and "matchesType T (commandQueue s ! i)" and "matchesType T (commandQueue s ! j)"
    and "callback (commandQueue s ! i) = Some f" and "\<not> discard (commandQueue s ! i)"
    and "\<forall>k < length (commandQueue s). k \<noteq> j \<longrightarrow> callback (commandQueue s ! k) \<noteq> Some g"
    and "effects (fold handleMessage payloads s) = effects s @ A @ CallbackCall g m # B"
  shows "\<exists>m'. CallbackCall f m' \<in> set A"
proof -
  from fold_handleMessage_lines [of payloads] obtain ls where
    ls: "fold handleMessage payloads s = fold handleLine ls s" by blast
  have fg: "f \<noteq> g"
    using assms(1,2,6,8) by auto
  have "(\<exists>i j A. i < j \<and> j < length (commandQueue s) \<and>
                matchesType T (commandQueue s ! i) \<and> matchesType T (commandQueue s ! j) \<and>
                callback (commandQueue s ! i) = Some f \<and> \<not> discard (commandQueue s ! i) \<and>
                (\<forall>k < length (commandQueue s). k \<noteq> j \<longrightarrow> callback (commandQueue s ! k) \<noteq> Some g) \<and>
                effects s = effects s @ A \<and> (\<forall>m. CallbackCall g m \<notin> set A)) \<or>
              (\<exists>A m' B. effects s = effects s @ A @ CallbackCall f m' # B \<and>
                (\<forall>m. CallbackCall g m \<notin> set A))"
    using assms(1,2,4-8) by (intro disjI1 exI [of _ i] exI [of _ j] exI [of _ "[]"]) simp
  with assms(3) have "(\<exists>i j A. i < j \<and> j < length (commandQueue (fold handleLine ls s)) \<and>
                matchesType T (commandQueue (fold handleLine ls s) ! i) \<and>
                matchesType T (commandQueue (fold handleLine ls s) ! j) \<and>
                callback (commandQueue (fold handleLine ls s) ! i) = Some f \<and>
                \<not> discard (commandQueue (fold handleLine ls s) ! i) \<and>
                (\<forall>k < length (commandQueue (fold handleLine ls s)). k \<noteq> j \<longrightarrow>
                   callback (commandQueue (fold handleLine ls s) ! k) \<noteq> Some g) \<and>
                effects (fold handleLine ls s) = effects s @ A \<and> (\<forall>m. CallbackCall g m \<notin> set A)) \<or>
              (\<exists>A m' B. effects (fold handleLine ls s) = effects s @ A @ CallbackCall f m' # B \<and>
                (\<forall>m. CallbackCall g m \<notin> set A))"
    by (rule callback_order_lines)
  then show ?thesis
  proof
    assume "\<exists>A m' B. effects (fold handleLine ls s) = effects s @ A @ CallbackCall f m' # B \<and>
                (\<forall>m. CallbackCall g m \<notin> set A)"
    then obtain A0 m' B0 where "effects (fold handleLine ls s) = effects s @ A0 @ CallbackCall f m' # B0"
      and nog: "\<forall>m. CallbackCall g m \<notin> set A0" by blast
    with assms(9) ls have "A @ CallbackCall g m # B = A0 @ CallbackCall f m' # B0" by simp
    moreover from nog have "CallbackCall g m \<notin> set A0" by blast
    moreover from fg have "CallbackCall f m' \<noteq> CallbackCall g m" by simp
    ultimately have "CallbackCall f m' \<in> set A" by (rule event_before)
    then show ?thesis ..
  next
    assume "\<exists>i j A. i < j \<and> j < length (commandQueue (fold handleLine ls s)) \<and>
                matchesType T (commandQueue (fold handleLine ls s) ! i) \<and>
                matchesType T (commandQueue (fold handleLine ls s) ! j) \<and>
                callback (commandQueue (fold handleLine ls s) ! i) = Some f \<and>
                \<not> discard (commandQueue (fold handleLine ls s) ! i) \<and>
                (\<forall>k < length (commandQueue (fold handleLine ls s)). k \<noteq> j \<longrightarrow>
                   callback (commandQueue (fold handleLine ls s) ! k) \<noteq> Some g) \<and>
                effects (fold handleLine ls s) = effects s @ A \<and> (\<forall>m. CallbackCall g m \<notin> set A)"
    then obtain A0 where e: "effects (fold handleLine ls s) = effects s @ A0"
      and nog: "\<forall>m. CallbackCall g m \<notin> set A0" by blast
    from e assms(9) ls have "A0 = A @ CallbackCall g m # B" by simp
    moreover from nog have "CallbackCall g m \<notin> set A0" by blast
    ultimately show ?thesis by simp
  qed
qed

lemma second_stays_queued:
  assumes "i < j" and "j < length (commandQueue s)"
    and "determineQueueIndex line s \<noteq> int j"
  shows "\<exists>j'. (j' = j \<or> Suc j' = j) \<and> j' < length (commandQueue (handleLine line s)) \<and>
               commandQueue (handleLine line s) ! j' = commandQueue s ! j"
proof -
  define q where "q = commandQueue s"
  from handleLine_queue_frame [of line s]
  consider (same) "commandQueue (handleLine line s) = q"
    | (upd) k m where "int k = determineQueueIndex line s" "k < length q"
        "commandQueue (handleLine line s) = q[k := (q ! k)\<lparr>message := m\<rparr>]"
    | (del) k where "int k = determineQueueIndex line s" "k < length q"
        "commandQueue (handleLine line s) = take k q @ drop (Suc k) q"
    unfolding q_def by blast
  then show ?thesis
  proof cases
    case same
    with assms(2) show ?thesis by (auto simp: q_def)
  next
    case upd
    with assms(3) have "k \<noteq> j" by auto
    with upd(3) assms(2) show ?thesis by (auto simp: q_def)
  next
    case del
    with assms(3) have kj: "k \<noteq> j" by auto
    show ?thesis
    proof (cases "k < j")
      case True
      then obtain j' where j': "j = Suc j'" by (cases j) auto
      with True have "k \<le> j'" by simp
      then have "(take k q @ drop (Suc k) q) ! j' = q ! j"
        using del(2) j' by (simp add: nth_append min_def)
      moreover have "j' < length (take k q @ drop (Suc k) q)"
        using del(2) assms(2) j' by (simp add: q_def)
      ultimately show ?thesis using del(3) j' unfolding q_def by auto
    next
      case False
      with kj have "j < k" by simp
      then have "(take k q @ drop (Suc k) q) ! j = q ! j"
        using del(2) by (simp add: nth_append)
      moreover have "j < length (take k q @ drop (Suc k) q)"
        using del(2) \<open>j < k\<close> by simp
      ultimately show ?thesis using del(3) unfolding q_def by auto
    qed
  qed
qed

section \<open>Claims\<close>

text \<open>
  C1. The claim: a line that is processed while the queue is not empty, is not filtered
  and matches no queued command by family is attributed to the head of the queue,
  appended to the head's buffer and delivered to the head's stream callback.
  The code: \<open>findIndex\<close> answers \<open>-1\<close>, \<open>-1 || 0\<close> is \<open>-1\<close>, the queue has no entry
  at \<open>-1\<close> and \<open>handleMessage\<close> returns. After \<open>send('foo', 1, 2)\<close> the line
  \<open>Unknown command: foo\<close> reaches the global stream only: the command at the head
  keeps its empty buffer, its stream callback is not called, and it stays queued although
  the line is one of the terminators of \<open>isCommandComplete\<close>.
\<close>

theorem C1_unmatched_line_is_dropped:
  "determineQueueIndex ''Unknown command: foo''
     \<lparr>worker = Some (Worker ''stockfish.js''),
      commandQueue = [\<lparr>cmd = ''foo'', callback = Some 1, stream = Some 2, message = [],
                       discard = False\<rparr>],
      loaded = True, ready = True, engine_stream = Some 0, effects = []\<rparr> = - 1
   \<and> handleMessage ''Unknown command: foo''
     \<lparr>worker = Some (Worker ''stockfish.js''),
      commandQueue = [\<lparr>cmd = ''foo'', callback = Some 1, stream = Some 2, message = [],
                       discard = False\<rparr>],
      loaded = True, ready = True, engine_stream = Some 0, effects = []\<rparr>
   = \<lparr>worker = Some (Worker ''stockfish.js''),
      commandQueue = [\<lparr>cmd = ''foo'', callback = Some 1, stream = Some 2, message = [],
                       discard = False\<rparr>],
      loaded = True, ready = True, engine_stream = Some 0,
      effects = [StreamCall 0 ''Unknown command: foo'']\<rparr>"
  by (simp add: handleMessage_single handleLine_def determineQueueIndex_def emit_def
        getFirstWord_def cmdTypeOf_def matchesType_def js_or_def at_index_def
        startsWith_def Let_def)

text \<open>
  C2 as the claim states it fails: \<open>send('isready', 1)\<close> after \<open>quit()\<close> throws, but
  the entry for \<open>isready\<close> has been pushed before the throw, so the queue has changed.
\<close>

theorem C2_send_after_quit_counterexample:
  "send ''isready'' (Some 1) None
     (quit \<lparr>worker = Some (Worker ''stockfish.js''), commandQueue = [], loaded = True,
            ready = True, engine_stream = None, effects = []\<rparr>)
   = (Inl TypeError,
      \<lparr>worker = None,
       commandQueue = [\<lparr>cmd = ''isready'', callback = Some 1, stream = None,
                        message = [], discard = False\<rparr>],
       loaded = False, ready = False, engine_stream = None, effects = [Terminate]\<rparr>)
   \<and> commandQueue (snd (send ''isready'' (Some 1) None
        (quit \<lparr>worker = Some (Worker ''stockfish.js''), commandQueue = [], loaded = True,
               ready = True, engine_stream = None, effects = []\<rparr>)))
     \<noteq> commandQueue
        (quit \<lparr>worker = Some (Worker ''stockfish.js''), commandQueue = [], loaded = True,
               ready = True, engine_stream = None, effects = []\<rparr>)"
  by (simp add: send_def quit_def needsQueue_def immediateCommands_def emit_def Let_def trim_def
        isWhiteSpace_def startsWith_def)

text \<open>
  C2, amended. For every command text, \<open>send\<close> after \<open>quit\<close> fails with the
  \<open>TypeError\<close> of the access to the \<open>null\<close> worker and posts nothing to the channel;
  a command that needs no queue tracking leaves the whole state as it was, and any other
  command has been appended to the queue by then, the rest of the state being unchanged.
\<close>

theorem C2_send_after_quit:
  "send command cb st (quit s) =
     (Inl TypeError,
      (quit s)\<lparr>commandQueue :=
         commandQueue (quit s) @
           (if needsQueue (trim command)
            then [\<lparr>cmd = trim command, callback = cb, stream = st, message = [], discard = False\<rparr>]
            else [])\<rparr>)
   \<and> effects (snd (send command cb st (quit s))) = effects (quit s)"
  by (simp add: send_def quit_def emit_def Let_def split: option.splits)

theorem C2_send_after_quit_witness:
  "send ''stop'' (Some 1) None
     (quit \<lparr>worker = Some (Worker ''stockfish.js''), commandQueue = [], loaded = True,
            ready = True, engine_stream = None, effects = []\<rparr>)
   = (Inl TypeError,
      \<lparr>worker = None, commandQueue = [], loaded = False, ready = False,
       engine_stream = None, effects = [Terminate]\<rparr>)"
  using C2_send_after_quit [of "''stop''" "Some 1" None
      "\<lparr>worker = Some (Worker ''stockfish.js''), commandQueue = [], loaded = True,
        ready = True, engine_stream = None, effects = []\<rparr>"]
  by (simp add: quit_def emit_def needsQueue_def immediateCommands_def trim_def isWhiteSpace_def)

text \<open>
  C3. Let a line be attributed to a queued command whose text is exactly \<open>eval\<close>, the
  line being none of \<open>uciok\<close>, \<open>readyok\<close> or a line that starts with \<open>bestmove\<close>.
  The completion test answers yes if and only if the buffer with the line appended
  matches \<open>evalRegex\<close>, that is, if and only if the buffer holds \<open>Total Evaluation\<close>
  followed by a block of at least one code unit and a line feed that ends the buffer.
  When it matches, the command is removed from the queue and its completion callback
  receives the buffer; when it does not, the command stays queued with the new buffer.
\<close>

theorem C3_eval_completion:
  assumes "NL \<notin> set line"
    and "\<not> startsWith line ''No such option''" and "\<not> startsWith line ''id ''"
    and "\<not> startsWith line ''Stockfish''"
    and "at_index (commandQueue s) (determineQueueIndex line s) = Some command"
    and "cmd command = ''eval''"
    and "line \<noteq> ''uciok''" and "line \<noteq> ''readyok''" and "\<not> startsWith line ''bestmove''"
  shows "(let k = nat (determineQueueIndex line s);
              buffer = (if message command \<noteq> [] then message command @ [NL] @ line else line);
              streamed = (case engine_stream s of Some f \<Rightarrow> [StreamCall f line] | None \<Rightarrow> []) @
                         (case stream command of Some f \<Rightarrow> [CommandStreamCall f line] | None \<Rightarrow> []);
              s' = handleMessage line s
          in (fst (isCommandComplete line (command\<lparr>message := buffer\<rparr>) s) \<longleftrightarrow> evalRegex_test buffer) \<and>
             (evalRegex_test buffer \<longleftrightarrow>
                (\<exists>pre mid. mid \<noteq> [] \<and> buffer = pre @ ''Total Evaluation'' @ mid @ [NL])) \<and>
             (if evalRegex_test buffer
              then commandQueue s' = take k (commandQueue s) @ drop (Suc k) (commandQueue s) \<and>
                   effects s' = effects s @ streamed @
                     (case callback command of
                        Some f \<Rightarrow> if discard command then [] else [CallbackCall f buffer]
                      | None \<Rightarrow> [])
              else commandQueue s' = (commandQueue s)[k := command\<lparr>message := buffer\<rparr>] \<and>
                   effects s' = effects s @ streamed))"
proof -
  have icc: "isCommandComplete line (command\<lparr>message := m\<rparr>) t =
               (evalRegex_test m, command\<lparr>message := m\<rparr>, t)" for m t
    using assms(6-9) by (simp add: isCommandComplete_def)
  from assms(5) have ne: "commandQueue s \<noteq> []"
    by (auto simp: at_index_def split: if_splits)
  have hl: "handleMessage line s = handleLine line s"
    using assms(1) by (rule handleMessage_single)
  have queue: "commandQueue (handleLine line s) =
          (if evalRegex_test m
           then take (nat (determineQueueIndex line s)) (commandQueue s) @
                drop (Suc (nat (determineQueueIndex line s))) (commandQueue s)
           else (commandQueue s)[nat (determineQueueIndex line s) := command\<lparr>message := m\<rparr>])"
    if "m = (if message command \<noteq> [] then message command @ [NL] @ line else line)" for m
    using assms(2-5) ne that
    by (auto simp: handleLine_def Let_def icc emit_def splice1_def split: option.splits)
  have effs: "effects (handleLine line s) =
          effects s @
          ((case engine_stream s of Some f \<Rightarrow> [StreamCall f line] | None \<Rightarrow> []) @
           (case stream command of Some f \<Rightarrow> [CommandStreamCall f line] | None \<Rightarrow> [])) @
          (if evalRegex_test m
           then (case callback command of
                   Some f \<Rightarrow> if discard command then [] else [CallbackCall f m]
                 | None \<Rightarrow> [])
           else [])"
    if "m = (if message command \<noteq> [] then message command @ [NL] @ line else line)" for m
    using assms(2-5) ne that
    by (auto simp: handleLine_def Let_def icc emit_def splice1_def split: option.splits)
  show ?thesis
    unfolding Let_def hl
    by (simp only: icc fst_conv queue [OF refl] effs [OF refl] evalRegex_test_iff [symmetric])
      simp
qed

theorem C3_eval_completion_witness:
  "handleMessage []
      \<lparr>worker = Some (Worker ''stockfish.js''),
        commandQueue = [\<lparr>cmd = ''eval'', callback = Some 1, stream = Some 2,
                         message = ''Total Evaluation: 0.25 (white side)'', discard = False\<rparr>],
        loaded = True, ready = True, engine_stream = None, effects = []\<rparr>
   = \<lparr>worker = Some (Worker ''stockfish.js''), commandQueue = [], loaded = True,
      ready = True, engine_stream = None,
      effects = [CommandStreamCall 2 [],
                 CallbackCall 1 (''Total Evaluation: 0.25 (white side)'' @ [NL])]\<rparr>"
  using C3_eval_completion [of "[]"
      "\<lparr>worker = Some (Worker ''stockfish.js''),
        commandQueue = [\<lparr>cmd = ''eval'', callback = Some 1, stream = Some 2,
                         message = ''Total Evaluation: 0.25 (white side)'', discard = False\<rparr>],
        loaded = True, ready = True, engine_stream = None, effects = []\<rparr>"
      "\<lparr>cmd = ''eval'', callback = Some 1, stream = Some 2,
        message = ''Total Evaluation: 0.25 (white side)'', discard = False\<rparr>"]
  by (simp add: handleMessage_single handleLine_def determineQueueIndex_def emit_def
        getFirstWord_def cmdTypeOf_def matchesType_def js_or_def at_index_def splice1_def
        isCommandComplete_def startsWith_def evalRegex_matchHere_def Let_def)

text \<open>
  C4. Let a command whose leading token is \<open>go\<close> (so its text is not \<open>bench\<close>) be the
  earliest \<open>go\<close> command of the queue, the head of the queue being neither \<open>bench\<close> nor
  \<open>perft\<close>. When any number of \<open>info\<close> lines and then a \<open>bestmove\<close> line arrive,
  the stream callback of the command is called once for each of these lines, in order,
  its completion callback is called exactly once, at the end, with the \<open>bestmove\<close>
  line alone as payload, and the command has left the queue.
\<close>

theorem C4_go_info_then_bestmove:
  assumes "commandQueue s = pre @ c # post"
    and "getFirstWord (cmd c) = ''go''"
    and "\<forall>x \<in> set pre. getFirstWord (cmd x) \<noteq> ''go''"
    and "pre \<noteq> [] \<longrightarrow> cmd (hd pre) \<noteq> ''bench'' \<and> cmd (hd pre) \<noteq> ''perft''"
    and "\<forall>l \<in> set infos. getFirstWord l = ''info'' \<and> NL \<notin> set l"
    and "getFirstWord best = ''bestmove''" and "NL \<notin> set best"
  shows "cmd c \<noteq> ''bench'' \<and>
         fold handleMessage (infos @ [best]) s =
           s\<lparr>commandQueue := pre @ post,
             effects := effects s @
               concat (map (\<lambda>l.
                 (case engine_stream s of Some f \<Rightarrow> [StreamCall f l] | None \<Rightarrow> []) @
                 (case stream c of Some f \<Rightarrow> [CommandStreamCall f l] | None \<Rightarrow> [])) (infos @ [best])) @
               (case callback c of
                  Some f \<Rightarrow> if discard c then [] else [CallbackCall f best]
                | None \<Rightarrow> [])\<rparr>"
proof -
  from info_lines_fold [OF assms(1-5)] obtain m where
    m: "fold handleMessage infos s =
           s\<lparr>commandQueue := pre @ c\<lparr>message := m\<rparr> # post,
             effects := effects s @
               concat (map (\<lambda>l.
                 (case engine_stream s of Some f \<Rightarrow> [StreamCall f l] | None \<Rightarrow> []) @
                 (case stream c of Some f \<Rightarrow> [CommandStreamCall f l] | None \<Rightarrow> [])) infos)\<rparr>"
    by blast
  define s' where "s' = fold handleMessage infos s"
  define c' where "c' = c\<lparr>message := m\<rparr>"
  have q': "commandQueue s' = pre @ c' # post"
    by (simp add: s'_def m c'_def)
  have c': "getFirstWord (cmd c') = ''go''"
    using assms(2) by (simp add: c'_def)
  have "handleLine best s' =
           s'\<lparr>commandQueue := pre @ post,
             effects := effects s' @
                (case engine_stream s' of Some f \<Rightarrow> [StreamCall f best] | None \<Rightarrow> []) @
                (case stream c' of Some f \<Rightarrow> [CommandStreamCall f best] | None \<Rightarrow> []) @
                (case callback c' of
                   Some f \<Rightarrow> if discard c' then [] else [CallbackCall f best]
                 | None \<Rightarrow> [])\<rparr>"
    using q' c' assms(3,4,6) by (rule bestmove_line_step)
  moreover have "fold handleMessage (infos @ [best]) s = handleLine best s'"
    using assms(7) by (simp add: s'_def handleMessage_single)
  moreover have "cmd c \<noteq> ''bench''"
    using assms(2) by (auto simp: getFirstWord_def)
  ultimately show ?thesis
    by (simp add: s'_def m c'_def cong: option.case_cong)
qed

theorem C4_go_info_then_bestmove_witness:
  "fold handleMessage [''info depth 1 score cp 20'', ''info depth 2 score cp 25'', ''bestmove e2e4'']
      \<lparr>worker = Some (Worker ''stockfish.js''),
        commandQueue = [\<lparr>cmd = ''isready'', callback = Some 3, stream = None, message = [],
                         discard = False\<rparr>,
                        \<lparr>cmd = ''go depth 10'', callback = Some 1, stream = Some 2,
                         message = [], discard = False\<rparr>],
        loaded = True, ready = False, engine_stream = Some 0, effects = []\<rparr>
   = \<lparr>worker = Some (Worker ''stockfish.js''),
      commandQueue = [\<lparr>cmd = ''isready'', callback = Some 3, stream = None, message = [],
                       discard = False\<rparr>],
      loaded = True, ready = False, engine_stream = Some 0,
      effects = [StreamCall 0 ''info depth 1 score cp 20'',
                 CommandStreamCall 2 ''info depth 1 score cp 20'',
                 StreamCall 0 ''info depth 2 score cp 25'',
                 CommandStreamCall 2 ''info depth 2 score cp 25'',
                 StreamCall 0 ''bestmove e2e4'',
                 CommandStreamCall 2 ''bestmove e2e4'',
                 CallbackCall 1 ''bestmove e2e4'']\<rparr>"
  using C4_go_info_then_bestmove [of
      "\<lparr>worker = Some (Worker ''stockfish.js''),
        commandQueue = [\<lparr>cmd = ''isready'', callback = Some 3, stream = None, message = [],
                         discard = False\<rparr>,
                        \<lparr>cmd = ''go depth 10'', callback = Some 1, stream = Some 2,
                         message = [], discard = False\<rparr>],
        loaded = True, ready = False, engine_stream = Some 0, effects = []\<rparr>"
      "[\<lparr>cmd = ''isready'', callback = Some 3, stream = None, message = [], discard = False\<rparr>]"
      "\<lparr>cmd = ''go depth 10'', callback = Some 1, stream = Some 2, message = [],
        discard = False\<rparr>"
      "[]"
      "[''info depth 1 score cp 20'', ''info depth 2 score cp 25'']"
      "''bestmove e2e4''"]
  by (simp add: getFirstWord_def)

text \<open>
  C5. For every command text whose trimmed form is one of \<open>ucinewgame\<close>, \<open>flip\<close>,
  \<open>stop\<close>, \<open>ponderhit\<close> or begins with \<open>position\<close> or \<open>setoption\<close>, \<open>send\<close> leaves
  the queue as it was and its result does not depend on the completion callback, which
  is stored nowhere and so is never invoked. For every other command text \<open>send\<close>
  appends exactly one entry, with the trimmed text, the two callbacks and an empty buffer,
  to the tail of the queue. On a live channel \<open>send\<close> succeeds and posts exactly the
  trimmed text.
\<close>

theorem C5_send_queueing:
  "(let c = trim command; r = send command cb st s
    in if c \<in> {''ucinewgame'', ''flip'', ''stop'', ''ponderhit''} \<or>
          startsWith c ''position'' \<or> startsWith c ''setoption''
       then commandQueue (snd r) = commandQueue s \<and>
            (\<forall>cb'. send command cb' st s = r) \<and>
            (worker s \<noteq> None \<longrightarrow> r = (Inr (), s\<lparr>effects := effects s @ [PostMessage c]\<rparr>))
       else commandQueue (snd r) =
              commandQueue s @
                [\<lparr>cmd = c, callback = cb, stream = st, message = [], discard = False\<rparr>] \<and>
            (worker s \<noteq> None \<longrightarrow>
               fst r = Inr () \<and> effects (snd r) = effects s @ [PostMessage c]))"
  by (auto simp: send_def needsQueue_def immediateCommands_def emit_def Let_def
           split: option.splits)

theorem C5_send_queueing_witness:
  "send ''  go depth 10 '' (Some 1) (Some 2)
     \<lparr>worker = Some (Worker ''stockfish.js''), commandQueue = [], loaded = True,
      ready = True, engine_stream = None, effects = []\<rparr>
   = (Inr (),
      \<lparr>worker = Some (Worker ''stockfish.js''),
       commandQueue = [\<lparr>cmd = ''go depth 10'', callback = Some 1, stream = Some 2,
                        message = [], discard = False\<rparr>],
       loaded = True, ready = True, engine_stream = None,
       effects = [PostMessage ''go depth 10'']\<rparr>)
   \<and> send ''position startpos'' (Some 1) (Some 2)
     \<lparr>worker = Some (Worker ''stockfish.js''), commandQueue = [], loaded = True,
      ready = True, engine_stream = None, effects = []\<rparr>
   = (Inr (),
      \<lparr>worker = Some (Worker ''stockfish.js''), commandQueue = [], loaded = True,
       ready = True, engine_stream = None, effects = [PostMessage ''position startpos'']\<rparr>)"
  using C5_send_queueing [of "''  go depth 10 ''" "Some 1" "Some 2"
      "\<lparr>worker = Some (Worker ''stockfish.js''), commandQueue = [], loaded = True,
        ready = True, engine_stream = None, effects = []\<rparr>"]
    C5_send_queueing [of "''position startpos''" "Some 1" "Some 2"
      "\<lparr>worker = Some (Worker ''stockfish.js''), commandQueue = [], loaded = True,
        ready = True, engine_stream = None, effects = []\<rparr>"]
  by (simp add: send_def needsQueue_def immediateCommands_def emit_def Let_def trim_def
        isWhiteSpace_def startsWith_def)

text \<open>
  C6 as the claim states it fails: with \<open>bench\<close> at the head of the queue and two
  \<open>go\<close> commands behind it, an \<open>info\<close> line is attributed to \<open>bench\<close>, not to the
  earliest queued \<open>go\<close> command.
\<close>

theorem C6_fifo_counterexample:
  "determineQueueIndex ''info depth 1''
     \<lparr>worker = Some (Worker ''stockfish.js''),
      commandQueue = [\<lparr>cmd = ''bench'', callback = Some 1, stream = None, message = [],
                       discard = False\<rparr>,
                      \<lparr>cmd = ''go depth 5'', callback = Some 2, stream = None, message = [],
                       discard = False\<rparr>,
                      \<lparr>cmd = ''go depth 10'', callback = Some 3, stream = None, message = [],
                       discard = False\<rparr>],
      loaded = True, ready = True, engine_stream = None, effects = []\<rparr> = 0
   \<and> commandQueue (handleMessage ''info depth 1''
     \<lparr>worker = Some (Worker ''stockfish.js''),
      commandQueue = [\<lparr>cmd = ''bench'', callback = Some 1, stream = None, message = [],
                       discard = False\<rparr>,
                      \<lparr>cmd = ''go depth 5'', callback = Some 2, stream = None, message = [],
                       discard = False\<rparr>,
                      \<lparr>cmd = ''go depth 10'', callback = Some 3, stream = None, message = [],
                       discard = False\<rparr>],
      loaded = True, ready = True, engine_stream = None, effects = []\<rparr>)
   = [\<lparr>cmd = ''bench'', callback = Some 1, stream = None, message = ''info depth 1'',
       discard = False\<rparr>,
      \<lparr>cmd = ''go depth 5'', callback = Some 2, stream = None, message = [],
       discard = False\<rparr>,
      \<lparr>cmd = ''go depth 10'', callback = Some 3, stream = None, message = [],
       discard = False\<rparr>]"
  by (simp add: handleMessage_single handleLine_def determineQueueIndex_def emit_def
        at_index_def isCommandComplete_def startsWith_def Let_def)

text \<open>
  C6, amended. Let two commands of the same family (both match one of the line families
  \<open>uci\<close>, \<open>isready\<close>, \<open>go\<close>, \<open>other\<close>; two \<open>go\<close> commands, or \<open>d\<close> and \<open>eval\<close>) be
  queued, one before the other.
  \<^item> No line is attributed to the second while the first is queued before it.
  \<^item> When the head of the queue is neither \<open>bench\<close> nor \<open>perft\<close>, a line of that family
    is attributed to the earliest queued command of the family.
  \<^item> After one line the second command is still queued, untouched, at its place or one
    place nearer the head, and every command-level call made for the line is a call of
    the callbacks of the attributed command, which is not the second.
  \<^item> In every run of arriving payloads, a call of the completion callback of the second
    (a callback no other queued command has) comes after a call of the completion
    callback of the first: the second never fires before the first has completed.
  \<^item> In every state, a completion callback fires for a line only as the callback of the
    command the line is attributed to, which is removed by that line: the second fires
    only on a line of its own that completes it.
\<close>

theorem C6_fifo_within_family:
  assumes "i < j" and "j < length (commandQueue s)"
    and "T \<in> set [''uci'', ''isready'', ''go'', ''other'']"
    and "matchesType T (commandQueue s ! i)" and "matchesType T (commandQueue s ! j)"
  shows "determineQueueIndex line s \<noteq> int j \<and>
         (cmd (hd (commandQueue s)) \<noteq> ''bench'' \<and> cmd (hd (commandQueue s)) \<noteq> ''perft'' \<and>
          cmdTypeOf (getFirstWord line) = T \<longrightarrow>
            (\<exists>k \<le> i. determineQueueIndex line s = int k \<and>
               matchesType T (commandQueue s ! k) \<and>
               (\<forall>m < k. \<not> matchesType T (commandQueue s ! m)))) \<and>
         (NL \<notin> set line \<longrightarrow>
            (\<exists>j'. (j' = j \<or> Suc j' = j) \<and> j' < length (commandQueue (handleMessage line s)) \<and>
               commandQueue (handleMessage line s) ! j' = commandQueue s ! j) \<and>
            (\<exists>ev. effects (handleMessage line s) =
                    effects s @
                    (case engine_stream s of Some h \<Rightarrow> [StreamCall h line] | None \<Rightarrow> []) @ ev \<and>
               (ev = [] \<or>
                (\<exists>k m. k \<noteq> j \<and> k < length (commandQueue s) \<and> int k = determineQueueIndex line s \<and>
                   (ev = (case stream (commandQueue s ! k) of
                            Some h \<Rightarrow> [CommandStreamCall h line] | None \<Rightarrow> []) \<or>
                    ev = (case stream (commandQueue s ! k) of
                            Some h \<Rightarrow> [CommandStreamCall h line] | None \<Rightarrow> []) @
                         (case callback (commandQueue s ! k) of
                            Some h \<Rightarrow> if discard (commandQueue s ! k) then [] else [CallbackCall h m]
                          | None \<Rightarrow> []) \<and>
                    commandQueue (handleMessage line s) =
                      take k (commandQueue s) @ drop (Suc k) (commandQueue s)))))) \<and>
         (callback (commandQueue s ! i) = Some f \<and> \<not> discard (commandQueue s ! i) \<and>
          callback (commandQueue s ! j) = Some g \<and>
          (\<forall>k < length (commandQueue s). k \<noteq> j \<longrightarrow> callback (commandQueue s ! k) \<noteq> Some g) \<and>
          effects (fold handleMessage payloads s) = effects s @ A @ CallbackCall g m # B \<longrightarrow>
            (\<exists>m'. CallbackCall f m' \<in> set A)) \<and>
         (NL \<notin> set line' \<longrightarrow>
            (\<exists>ev. effects (handleMessage line' t) =
                    effects t @
                    (case engine_stream t of Some h \<Rightarrow> [StreamCall h line'] | None \<Rightarrow> []) @ ev \<and>
               (ev = [] \<or>
                (\<exists>k m. k < length (commandQueue t) \<and> int k = determineQueueIndex line' t \<and>
                   (ev = (case stream (commandQueue t ! k) of
                            Some h \<Rightarrow> [CommandStreamCall h line'] | None \<Rightarrow> []) \<or>
                    ev = (case stream (commandQueue t ! k) of
                            Some h \<Rightarrow> [CommandStreamCall h line'] | None \<Rightarrow> []) @
                         (case callback (commandQueue t ! k) of
                            Some h \<Rightarrow> if discard (commandQueue t ! k) then [] else [CallbackCall h m]
                          | None \<Rightarrow> []) \<and>
                    commandQueue (handleMessage line' t) =
                      take k (commandQueue t) @ drop (Suc k) (commandQueue t))))))"
proof (intro conjI impI)
  show notj: "determineQueueIndex line s \<noteq> int j"
    using assms by (rule not_attributed_behind_same_family)
  show "\<exists>k \<le> i. determineQueueIndex line s = int k \<and> matchesType T (commandQueue s ! k) \<and>
          (\<forall>m < k. \<not> matchesType T (commandQueue s ! m))"
    if "cmd (hd (commandQueue s)) \<noteq> ''bench'' \<and> cmd (hd (commandQueue s)) \<noteq> ''perft'' \<and>
        cmdTypeOf (getFirstWord line) = T"
    using earliest_of_family_attributed [OF assms(1,2,4,5)] that by blast
  show "\<exists>j'. (j' = j \<or> Suc j' = j) \<and> j' < length (commandQueue (handleMessage line s)) \<and>
          commandQueue (handleMessage line s) ! j' = commandQueue s ! j"
    if "NL \<notin> set line"
    unfolding handleMessage_single [OF that]
    using assms(1,2) notj by (rule second_stays_queued)
  show "\<exists>ev. effects (handleMessage line s) =
                    effects s @
                    (case engine_stream s of Some h \<Rightarrow> [StreamCall h line] | None \<Rightarrow> []) @ ev \<and>
               (ev = [] \<or>
                (\<exists>k m. k \<noteq> j \<and> k < length (commandQueue s) \<and> int k = determineQueueIndex line s \<and>
                   (ev = (case stream (commandQueue s ! k) of
                            Some h \<Rightarrow> [CommandStreamCall h line] | None \<Rightarrow> []) \<or>
                    ev = (case stream (commandQueue s ! k) of
                            Some h \<Rightarrow> [CommandStreamCall h line] | None \<Rightarrow> []) @
                         (case callback (commandQueue s ! k) of
                            Some h \<Rightarrow> if discard (commandQueue s ! k) then [] else [CallbackCall h m]
                          | None \<Rightarrow> []) \<and>
                    commandQueue (handleMessage line s) =
                      take k (commandQueue s) @ drop (Suc k) (commandQueue s))))"
    if "NL \<notin> set line"
  proof -
    from notj have "int k = determineQueueIndex line s \<Longrightarrow> k \<noteq> j" for k by auto
    with handleLine_step [of line s] show ?thesis
      unfolding handleMessage_single [OF that] by blast
  qed
  show "\<exists>m'. CallbackCall f m' \<in> set A"
    if "callback (commandQueue s ! i) = Some f \<and> \<not> discard (commandQueue s ! i) \<and>
        callback (commandQueue s ! j) = Some g \<and>
        (\<forall>k < length (commandQueue s). k \<noteq> j \<longrightarrow> callback (commandQueue s ! k) \<noteq> Some g) \<and>
        effects (fold handleMessage payloads s) = effects s @ A @ CallbackCall g m # B"
    using assms that by (intro second_callback_after_first [of i j s T f g payloads A m B]) auto
  show "\<exists>ev. effects (handleMessage line' t) =
                    effects t @
                    (case engine_stream t of Some h \<Rightarrow> [StreamCall h line'] | None \<Rightarrow> []) @ ev \<and>
               (ev = [] \<or>
                (\<exists>k m. k < length (commandQueue t) \<and> int k = determineQueueIndex line' t \<and>
                   (ev = (case stream (commandQueue t ! k) of
                            Some h \<Rightarrow> [CommandStreamCall h line'] | None \<Rightarrow> []) \<or>
                    ev = (case stream (commandQueue t ! k) of
                            Some h \<Rightarrow> [CommandStreamCall h line'] | None \<Rightarrow> []) @
                         (case callback (commandQueue t ! k) of
                            Some h \<Rightarrow> if discard (commandQueue t ! k) then [] else [CallbackCall h m]
                          | None \<Rightarrow> []) \<and>
                    commandQueue (handleMessage line' t) =
                      take k (commandQueue t) @ drop (Suc k) (commandQueue t))))"
    if "NL \<notin> set line'"
    using handleLine_step [of line' t]
    unfolding handleMessage_single [OF that] by blast
qed

theorem C6_fifo_within_family_witness:
  "determineQueueIndex ''Key is: 5A3B''
      \<lparr>worker = Some (Worker ''stockfish.js''),
        commandQueue = [\<lparr>cmd = ''d'', callback = Some 1, stream = None, message = [],
                         discard = False\<rparr>,
                        \<lparr>cmd = ''eval'', callback = Some 2, stream = None, message = [],
                         discard = False\<rparr>],
        loaded = True, ready = True, engine_stream = None, effects = []\<rparr> \<noteq> 1
   \<and> effects (fold handleMessage [''Key is: 5A3B'', ''Total Evaluation: 0.25'', []]
      \<lparr>worker = Some (Worker ''stockfish.js''),
        commandQueue = [\<lparr>cmd = ''d'', callback = Some 1, stream = None, message = [],
                         discard = False\<rparr>,
                        \<lparr>cmd = ''eval'', callback = Some 2, stream = None, message = [],
                         discard = False\<rparr>],
        loaded = True, ready = True, engine_stream = None, effects = []\<rparr>)
     = [CallbackCall 1 ''Key is: 5A3B'', CallbackCall 2 (''Total Evaluation: 0.25'' @ [NL])]
   \<and> (\<exists>m'. CallbackCall 1 m' \<in> set [CallbackCall 1 ''Key is: 5A3B''])"
proof -
  define S where "S = \<lparr>worker = Some (Worker ''stockfish.js''),
        commandQueue = [\<lparr>cmd = ''d'', callback = Some 1, stream = None, message = [],
                         discard = False\<rparr>,
                        \<lparr>cmd = ''eval'', callback = Some 2, stream = None, message = [],
                         discard = False\<rparr>],
        loaded = True, ready = True, engine_stream = None, effects = []\<rparr>"
  have h: "(0::nat) < 1" "1 < length (commandQueue S)"
    "''other'' \<in> set [''uci'', ''isready'', ''go'', ''other'']"
    "matchesType ''other'' (commandQueue S ! 0)" "matchesType ''other'' (commandQueue S ! 1)"
    by (simp_all add: S_def matchesType_def getFirstWord_def)
  have run: "effects (fold handleMessage [''Key is: 5A3B'', ''Total Evaluation: 0.25'', []] S)
      = effects S @ [CallbackCall 1 ''Key is: 5A3B''] @
        CallbackCall 2 (''Total Evaluation: 0.25'' @ [NL]) # []"
    by (simp add: S_def handleMessage_single handleLine_def determineQueueIndex_def emit_def
          getFirstWord_def cmdTypeOf_def matchesType_def js_or_def at_index_def splice1_def
          isCommandComplete_def startsWith_def evalRegex_matchHere_def Let_def)
  have cbs: "callback (commandQueue S ! 0) = Some 1 \<and> \<not> discard (commandQueue S ! 0) \<and>
      callback (commandQueue S ! 1) = Some 2 \<and>
      (\<forall>k < length (commandQueue S). k \<noteq> 1 \<longrightarrow> callback (commandQueue S ! k) \<noteq> Some 2)"
    by (auto simp: S_def less_Suc_eq)
  note inst = C6_fifo_within_family [OF h, where f = 1 and g = 2
      and payloads = "[''Key is: 5A3B'', ''Total Evaluation: 0.25'', []]"
      and A = "[CallbackCall 1 ''Key is: 5A3B'']"
      and m = "''Total Evaluation: 0.25'' @ [NL]" and B = "[]"
      and line = "''Key is: 5A3B''"]
  from inst have "determineQueueIndex ''Key is: 5A3B'' S \<noteq> int 1"
    by blast
  moreover from inst cbs run have "\<exists>m'. CallbackCall 1 m' \<in> set [CallbackCall 1 ''Key is: 5A3B'']"
    by blast
  moreover from run have "effects (fold handleMessage [''Key is: 5A3B'', ''Total Evaluation: 0.25'', []] S)
      = [CallbackCall 1 ''Key is: 5A3B'', CallbackCall 2 (''Total Evaluation: 0.25'' @ [NL])]"
    by (simp add: S_def)
  ultimately show ?thesis
    unfolding S_def by simp
qed

text \<open>
  C7 as the claim states it fails: \<open>quit\<close> does not drop the command queue. A pending
  \<open>go depth 10\<close> is still queued after \<open>quit\<close>, and a \<open>bestmove\<close> line handed to
  \<open>handleMessage\<close> afterwards fires both of its callbacks.
\<close>

theorem C7_quit_counterexample:
  "commandQueue
     (quit \<lparr>worker = Some (Worker ''stockfish.js''),
            commandQueue = [\<lparr>cmd = ''go depth 10'', callback = Some 1, stream = Some 2,
                             message = [], discard = False\<rparr>],
            loaded = True, ready = True, engine_stream = None, effects = []\<rparr>)
   = [\<lparr>cmd = ''go depth 10'', callback = Some 1, stream = Some 2, message = [], discard = False\<rparr>]
   \<and> effects (handleMessage ''bestmove e2e4''
       (quit \<lparr>worker = Some (Worker ''stockfish.js''),
              commandQueue = [\<lparr>cmd = ''go depth 10'', callback = Some 1, stream = Some 2,
                               message = [], discard = False\<rparr>],
              loaded = True, ready = True, engine_stream = None, effects = []\<rparr>))
     = [Terminate, CommandStreamCall 2 ''bestmove e2e4'', CallbackCall 1 ''bestmove e2e4'']"
  by (simp add: quit_def emit_def handleMessage_single handleLine_def determineQueueIndex_def
        getFirstWord_def cmdTypeOf_def matchesType_def js_or_def at_index_def splice1_def
        isCommandComplete_def startsWith_def Let_def)

text \<open>
  C7, amended. On a live channel \<open>quit\<close> terminates the channel, clears the channel
  handle and sets \<open>loaded\<close> and \<open>ready\<close> to false; it invokes no callback and leaves
  the command queue as it was, so pending commands stay queued.
\<close>

theorem C7_quit:
  "worker s \<noteq> None \<Longrightarrow>
   quit s = s\<lparr>worker := None, ready := False, loaded := False, effects := effects s @ [Terminate]\<rparr>
   \<and> commandQueue (quit s) = commandQueue s"
  by (auto simp: quit_def emit_def)

theorem C7_quit_witness:
  "quit \<lparr>worker = Some (Worker ''stockfish.js''),
         commandQueue = [\<lparr>cmd = ''go depth 10'', callback = Some 1, stream = Some 2,
                          message = [], discard = False\<rparr>],
         loaded = True, ready = True, engine_stream = None, effects = []\<rparr>
   = \<lparr>worker = None,
      commandQueue = [\<lparr>cmd = ''go depth 10'', callback = Some 1, stream = Some 2,
                       message = [], discard = False\<rparr>],
      loaded = False, ready = False, engine_stream = None, effects = [Terminate]\<rparr>"
  using C7_quit [of "\<lparr>worker = Some (Worker ''stockfish.js''),
         commandQueue = [\<lparr>cmd = ''go depth 10'', callback = Some 1, stream = Some 2,
                          message = [], discard = False\<rparr>],
         loaded = True, ready = True, engine_stream = None, effects = []\<rparr>"]
  by simp

text \<open>
  C8. A payload with a line feed is split at the line feeds, and the sub-lines that are
  not blank are handled one after the other, in the order of the payload, each as a line
  of its own (no sub-line holds a line feed, so each takes the single-line path); a
  blank sub-line is skipped before anything is done with it, the global stream included.
\<close>

theorem C8_multi_line_payload:
  assumes "NL \<in> set payload"
  shows "handleMessage payload s =
           fold handleMessage (filter (\<lambda>subLine. trim subLine \<noteq> []) (split NL payload)) s
         \<and> (\<forall>subLine \<in> set (split NL payload).
               handleMessage subLine = handleLine subLine)"
proof -
  have "handleMessage payload s =
          fold (\<lambda>subLine s'. if trim subLine \<noteq> [] then handleMessage subLine s' else s')
            (split NL payload) s"
    using assms by (simp add: handleMessage.simps)
  also have "\<dots> = fold handleMessage (filter (\<lambda>subLine. trim subLine \<noteq> []) (split NL payload)) s"
    by (rule fold_if_filter)
  finally have first: "handleMessage payload s =
      fold handleMessage (filter (\<lambda>subLine. trim subLine \<noteq> []) (split NL payload)) s" .
  have "handleMessage subLine = handleLine subLine" if "subLine \<in> set (split NL payload)" for subLine
  proof
    fix s'
    from that have "NL \<notin> set subLine" by (rule split_no_separator)
    then show "handleMessage subLine s' = handleLine subLine s'" by (rule handleMessage_single)
  qed
  with first show ?thesis by blast
qed

theorem C8_multi_line_payload_witness:
  "handleMessage (''readyok'' @ [NL] @ ''  '' @ [NL] @ ''uciok'')
     \<lparr>worker = Some (Worker ''stockfish.js''),
      commandQueue = [\<lparr>cmd = ''uci'', callback = Some 1, stream = None, message = [],
                       discard = False\<rparr>,
                      \<lparr>cmd = ''isready'', callback = Some 2, stream = None, message = [],
                       discard = False\<rparr>],
      loaded = False, ready = False, engine_stream = Some 0, effects = []\<rparr>
   = \<lparr>worker = Some (Worker ''stockfish.js''), commandQueue = [], loaded = True,
      ready = True, engine_stream = Some 0,
      effects = [StreamCall 0 ''readyok'', CallbackCall 2 ''readyok'',
                 StreamCall 0 ''uciok'', CallbackCall 1 ''uciok'']\<rparr>"
  using C8_multi_line_payload [of "''readyok'' @ [NL] @ ''  '' @ [NL] @ ''uciok''"
      "\<lparr>worker = Some (Worker ''stockfish.js''),
        commandQueue = [\<lparr>cmd = ''uci'', callback = Some 1, stream = None, message = [],
                         discard = False\<rparr>,
                        \<lparr>cmd = ''isready'', callback = Some 2, stream = None, message = [],
                         discard = False\<rparr>],
        loaded = False, ready = False, engine_stream = Some 0, effects = []\<rparr>"]
  by (simp add: trim_def isWhiteSpace_def handleMessage_single handleLine_def
        determineQueueIndex_def emit_def getFirstWord_def cmdTypeOf_def matchesType_def
        js_or_def at_index_def splice1_def isCommandComplete_def startsWith_def Let_def)

text \<open>
  C9. Handling one line leaves the queue as it was, or rewrites the buffer of the one
  attributed command in place, or removes that one command: every other command keeps
  its fields and the relative order is kept.
\<close>

theorem C9_line_arrival_frame:
  assumes "NL \<notin> set line"
  shows "commandQueue (handleMessage line s) = commandQueue s \<or>
         (\<exists>k m. int k = determineQueueIndex line s \<and> k < length (commandQueue s) \<and>
            (commandQueue (handleMessage line s) =
               (commandQueue s)[k := (commandQueue s ! k)\<lparr>message := m\<rparr>] \<or>
             commandQueue (handleMessage line s) =
               take k (commandQueue s) @ drop (Suc k) (commandQueue s)))"
  unfolding handleMessage_single [OF assms] by (rule handleLine_queue_frame)

theorem C9_line_arrival_frame_witness:
  "NL \<notin> set ''info depth 1'' \<and>
   (commandQueue (handleMessage ''info depth 1''
      \<lparr>worker = Some (Worker ''stockfish.js''),
       commandQueue = [\<lparr>cmd = ''isready'', callback = Some 1, stream = None, message = [],
                        discard = False\<rparr>,
                       \<lparr>cmd = ''go depth 10'', callback = Some 2, stream = None,
                        message = [], discard = False\<rparr>],
       loaded = True, ready = False, engine_stream = None, effects = []\<rparr>)
    = [\<lparr>cmd = ''isready'', callback = Some 1, stream = None, message = [],
        discard = False\<rparr>,
       \<lparr>cmd = ''go depth 10'', callback = Some 2, stream = None,
        message = ''info depth 1'', discard = False\<rparr>])"
  using C9_line_arrival_frame [of "''info depth 1''"
      "\<lparr>worker = Some (Worker ''stockfish.js''),
        commandQueue = [\<lparr>cmd = ''isready'', callback = Some 1, stream = None, message = [],
                         discard = False\<rparr>,
                        \<lparr>cmd = ''go depth 10'', callback = Some 2, stream = None,
                         message = [], discard = False\<rparr>],
        loaded = True, ready = False, engine_stream = None, effects = []\<rparr>"]
  by (simp add: handleMessage_single handleLine_def determineQueueIndex_def emit_def
        getFirstWord_def cmdTypeOf_def matchesType_def js_or_def at_index_def splice1_def
        isCommandComplete_def startsWith_def Let_def)

text \<open>
  C10. When the queue is empty and \<open>uciok\<close> or \<open>readyok\<close> arrives, the line is given
  to the global stream callback, if one is set, and nothing else happens: \<open>loaded\<close>,
  \<open>ready\<close> and the queue are as before.
\<close>

theorem C10_handshake_line_on_empty_queue:
  assumes "commandQueue s = []" and "line = ''uciok'' \<or> line = ''readyok''"
  shows "handleMessage line s =
           s\<lparr>effects := effects s @
                (case engine_stream s of Some f \<Rightarrow> [StreamCall f line] | None \<Rightarrow> [])\<rparr>
         \<and> loaded (handleMessage line s) = loaded s
         \<and> ready (handleMessage line s) = ready s
         \<and> commandQueue (handleMessage line s) = []"
proof -
  from assms(2) have "NL \<notin> set line" by auto
  then have "handleMessage line s = handleLine line s" by (rule handleMessage_single)
  with assms(1) show ?thesis
    by (simp add: handleLine_empty_queue)
qed

theorem C10_handshake_line_on_empty_queue_witness:
  "handleMessage ''uciok''
     \<lparr>worker = Some (Worker ''stockfish.js''), commandQueue = [], loaded = False,
      ready = False, engine_stream = Some 7, effects = []\<rparr>
   = \<lparr>worker = Some (Worker ''stockfish.js''), commandQueue = [], loaded = False,
      ready = False, engine_stream = Some 7, effects = [StreamCall 7 ''uciok'']\<rparr>"
  using C10_handshake_line_on_empty_queue
    [of "\<lparr>worker = Some (Worker ''stockfish.js''), commandQueue = [], loaded = False,
          ready = False, engine_stream = Some 7, effects = []\<rparr>" "''uciok''"]
  by simp

end
